theory Spec2Isabelle
  imports Complex_Main "HOL-Library.Word" "HOL-Library.Multiset" "HOL-Library.Log_Nat"
begin

unbundle bit_operations_syntax

section \<open>Values of the program\<close>

text \<open>
  The repository is Python over numpy. A byte is an 8-bit word, a numpy array is its shape
  together with its elements in row-major (C) order, which is the order of
  \<^verbatim>\<open>flatten()\<close>, \<^verbatim>\<open>tobytes()\<close> and \<^verbatim>\<open>reshape\<close>. Index arrays hold signed
  integers. Every exception the modelled code can raise is a value of \<open>error\<close>.
\<close>

type_synonym u8 = "8 word"

datatype error =
    ZeroDivisionError
  | TypeError
  | IndexError
  | ReshapeError
  | FloatToIntError
  | StructError
  | InvalidFormat
  | UnsupportedVersion nat
  | Corrupt
  | InvalidKey

record 'a ndarray =
  shape :: "nat list"
  elems :: "'a list"

definition valid_array :: "'a ndarray \<Rightarrow> bool" where
  "valid_array a = (length (elems a) = prod_list (shape a))"

definition flatten :: "'a ndarray \<Rightarrow> 'a list" where
  "flatten a = elems a"

text \<open>\<^verbatim>\<open>flat.reshape(shp)\<close>: numpy raises ValueError unless the sizes agree.\<close>

definition reshape :: "'a list \<Rightarrow> nat list \<Rightarrow> error + 'a ndarray" where
  "reshape flat shp =
     (if prod_list shp = length flat then Inr \<lparr>shape = shp, elems = flat\<rparr>
      else Inl ReshapeError)"

text \<open>\<^verbatim>\<open>len(a)\<close> is the first dimension; a 0-dimensional array has no length.\<close>

definition len_array :: "'a ndarray \<Rightarrow> error + nat" where
  "len_array a = (case shape a of [] \<Rightarrow> Inl TypeError | n # _ \<Rightarrow> Inr n)"

definition row_size :: "'a ndarray \<Rightarrow> nat" where
  "row_size a = prod_list (tl (shape a))"

definition row :: "'a ndarray \<Rightarrow> nat \<Rightarrow> 'a list" where
  "row a i = take (row_size a) (drop (i * row_size a) (elems a))"

text \<open>
  \<^verbatim>\<open>a[idx]\<close> for a one-dimensional integer array \<open>idx\<close>: row \<open>i\<close> of the result is row
  \<open>idx[i]\<close> of \<open>a\<close>; an index counts from the end when negative and raises IndexError
  outside \<open>[-n, n)\<close>.
\<close>

definition index_ok :: "nat \<Rightarrow> int \<Rightarrow> bool" where
  "index_ok n i = (- int n \<le> i \<and> i < int n)"

definition norm_index :: "nat \<Rightarrow> int \<Rightarrow> nat" where
  "norm_index n i = nat (if i < 0 then i + int n else i)"

definition take_rows :: "'a ndarray \<Rightarrow> int list \<Rightarrow> error + 'a ndarray" where
  "take_rows a idx =
     (case shape a of
        [] \<Rightarrow> Inl IndexError
      | n # rest \<Rightarrow>
          if list_all (index_ok n) idx
          then Inr \<lparr>shape = length idx # rest,
                    elems = concat (map (\<lambda>i. row a (norm_index n i)) idx)\<rparr>
          else Inl IndexError)"

section \<open>PixelProcessor (pixel\_processor.py)\<close>

text \<open>
  A PIL image is represented by the uint8 array \<^verbatim>\<open>np.array(image)\<close> gives for it, so
  \<^verbatim>\<open>image_to_array\<close> and \<^verbatim>\<open>array_to_image\<close> (whose \<^verbatim>\<open>astype(np.uint8)\<close> leaves a
  uint8 array as it is) are the identity.
\<close>

definition image_to_array :: "u8 ndarray \<Rightarrow> u8 ndarray" where
  "image_to_array img = img"

definition array_to_image :: "u8 ndarray \<Rightarrow> u8 ndarray" where
  "array_to_image array = array"

text \<open>
  \<^verbatim>\<open>self.chunk_size = chunk_size or getattr(settings, 'CHUNK_SIZE', 32)\<close>: an argument
  that is None or 0 is replaced by the setting, and the setting by 32 when it is absent.
  The Django settings module is not part of the sources, so the setting is a parameter.
\<close>

definition PixelProcessor_init :: "nat option \<Rightarrow> nat option \<Rightarrow> nat" where
  "PixelProcessor_init chunk_size_arg setting =
     (case chunk_size_arg of
        Some (Suc n) \<Rightarrow> Suc n
      | _ \<Rightarrow> (case setting of Some s \<Rightarrow> s | None \<Rightarrow> 32))"

record chunk_metadata =
  original_shape :: "nat list"
  original_size :: nat
  padding :: nat
  num_chunks :: nat
  chunk_size :: nat

definition np_pad :: "u8 list \<Rightarrow> nat \<Rightarrow> u8 list" where
  "np_pad flat n = flat @ replicate n 0"

definition chunk_pixels :: "nat \<Rightarrow> u8 ndarray \<Rightarrow> error + (u8 ndarray \<times> chunk_metadata)" where
  "chunk_pixels cs img =
     (let img_array = image_to_array img;
          orig_shape = shape img_array;
          flat_array = flatten img_array;
          orig_size = length flat_array
      in if cs = 0 then Inl ZeroDivisionError
         else
           let remainder = length flat_array mod cs;
               pad = (if remainder \<noteq> 0 then cs - remainder else 0);
               flat_array' = (if remainder \<noteq> 0 then np_pad flat_array pad else flat_array);
               n = length flat_array' div cs
           in case reshape flat_array' [n, cs] of
                Inl e \<Rightarrow> Inl e
              | Inr chunks \<Rightarrow>
                  Inr (chunks,
                       \<lparr>original_shape = orig_shape, original_size = orig_size,
                        padding = pad, num_chunks = n, chunk_size = cs\<rparr>))"

definition unchunk_pixels :: "u8 ndarray \<Rightarrow> chunk_metadata \<Rightarrow> error + u8 ndarray" where
  "unchunk_pixels chunks metadata =
     (let flat_array = flatten chunks;
          flat_array' = (if padding metadata > 0
                         then take (original_size metadata) flat_array else flat_array)
      in case reshape flat_array' (original_shape metadata) of
           Inl e \<Rightarrow> Inl e
         | Inr img_array \<Rightarrow> Inr (array_to_image img_array))"

text \<open>
  \<^verbatim>\<open>generate_shuffle_indices\<close> asks numpy for \<^verbatim>\<open>RandomState(seed).shuffle(arange(n))\<close>.
  The generator is numpy's, not the repository's: it is the parameter \<open>rng\<close>, from the
  seed and the count to the shuffled index array.
\<close>

definition generate_shuffle_indices :: "(int \<Rightarrow> nat \<Rightarrow> int list) \<Rightarrow> nat \<Rightarrow> int \<Rightarrow> int list" where
  "generate_shuffle_indices rng n seed = rng seed n"

definition shuffle_chunks ::
  "(int \<Rightarrow> nat \<Rightarrow> int list) \<Rightarrow> 'a ndarray \<Rightarrow> int \<Rightarrow> error + ('a ndarray \<times> int list)" where
  "shuffle_chunks rng chunks seed =
     (case len_array chunks of
        Inl e \<Rightarrow> Inl e
      | Inr n \<Rightarrow>
          (let shuffle_indices = generate_shuffle_indices rng n seed
           in (case take_rows chunks shuffle_indices of
                 Inl e \<Rightarrow> Inl e
               | Inr shuffled_chunks \<Rightarrow> Inr (shuffled_chunks, shuffle_indices))))"

text \<open>
  \<^verbatim>\<open>np.argsort\<close>: the indices that sort the array. Ties are broken by position here;
  numpy's default sort may break them otherwise, which no index array with distinct
  entries can show.
\<close>

definition argsort :: "int list \<Rightarrow> int list" where
  "argsort xs = map (\<lambda>p. int (snd p)) (sort_key fst (zip xs [0..<length xs]))"

definition unshuffle_chunks :: "'a ndarray \<Rightarrow> int list \<Rightarrow> error + 'a ndarray" where
  "unshuffle_chunks shuffled_chunks shuffle_indices =
     (let inverse_indices = argsort shuffle_indices
      in take_rows shuffled_chunks inverse_indices)"


section \<open>Python floats\<close>

text \<open>
  A Python float is an IEEE 754 binary64 number. A finite one is represented by the
  rational number it denotes (the two zeros are one value: no operation of the modelled
  code tells them apart), and the infinities and NaN are values of their own. Every
  arithmetic operation computes the exact result and rounds it to the nearest binary64
  number, ties to the even significand: 53 significant bits, the exponent of the last bit
  no less than \<open>-1074\<close>, and an infinity beyond the largest finite number.
\<close>

datatype double = Finite rat | PInf | NInf | NaN

text \<open>\<open>ilog2 q\<close> is the integer \<open>e\<close> with \<open>2 ^ e \<le> |q| < 2 ^ (e + 1)\<close>, for \<open>q \<noteq> 0\<close>.\<close>

definition ilog2 :: "rat \<Rightarrow> int" where
  "ilog2 q =
     (let d = bitlen (fst (quotient_of \<bar>q\<bar>)) - bitlen (snd (quotient_of \<bar>q\<bar>))
      in if 2 powi d \<le> \<bar>q\<bar> then d else d - 1)"

definition ulp_exp :: "rat \<Rightarrow> int" where
  "ulp_exp q = max (ilog2 q - 52) (- 1074)"

definition round_half_even :: "rat \<Rightarrow> int" where
  "round_half_even m =
     (let f = \<lfloor>m\<rfloor>; d = m - of_int f
      in if d < 1 / 2 then f else if 1 / 2 < d then f + 1 else if even f then f else f + 1)"

definition round_rat :: "rat \<Rightarrow> rat" where
  "round_rat q =
     (if q = 0 then 0
      else of_int (round_half_even (q / 2 powi ulp_exp q)) * 2 powi ulp_exp q)"

definition max_double :: rat where
  "max_double = (2 ^ 53 - 1) * 2 ^ 971"

definition rnd :: "rat \<Rightarrow> double" where
  "rnd q =
     (let r = round_rat q
      in if max_double < r then PInf else if r < - max_double then NInf else Finite r)"

fun sign_double :: "double \<Rightarrow> int" where
  "sign_double (Finite a) = sgn \<lfloor>sgn a\<rfloor>"
| "sign_double PInf = 1"
| "sign_double NInf = - 1"
| "sign_double NaN = 0"

definition inf_of_sign :: "int \<Rightarrow> double" where
  "inf_of_sign s = (if s = 0 then NaN else if 0 < s then PInf else NInf)"

fun fmul :: "double \<Rightarrow> double \<Rightarrow> double" where
  "fmul (Finite a) (Finite b) = rnd (a * b)"
| "fmul x y = (if x = NaN \<or> y = NaN then NaN else inf_of_sign (sign_double x * sign_double y))"

fun fadd :: "double \<Rightarrow> double \<Rightarrow> double" where
  "fadd (Finite a) (Finite b) = rnd (a + b)"
| "fadd (Finite a) y = y"
| "fadd x (Finite b) = x"
| "fadd x y = (if x = y then x else NaN)"

fun fneg :: "double \<Rightarrow> double" where
  "fneg (Finite a) = Finite (- a)"
| "fneg PInf = NInf"
| "fneg NInf = PInf"
| "fneg NaN = NaN"

definition fsub :: "double \<Rightarrow> double \<Rightarrow> double" where
  "fsub x y = fadd x (fneg y)"

text \<open>
  \<^verbatim>\<open>x / y\<close>. Python raises ZeroDivisionError for a zero divisor; the one division of the
  modelled code divides by the literal \<^verbatim>\<open>1000000.0\<close>, and the model gives NaN there.
\<close>

fun fdiv :: "double \<Rightarrow> double \<Rightarrow> double" where
  "fdiv (Finite a) (Finite b) = (if b = 0 then NaN else rnd (a / b))"
| "fdiv (Finite a) y = (if y = NaN then NaN else Finite 0)"
| "fdiv x (Finite b) =
     (if x = NaN \<or> b = 0 then NaN else inf_of_sign (sign_double x * sign_double (Finite b)))"
| "fdiv x y = NaN"



text \<open>\<^verbatim>\<open>float(n)\<close> for an integer, as the mixed operations \<^verbatim>\<open>n / 1000000.0\<close>,
  \<^verbatim>\<open>1 - x\<close> and \<^verbatim>\<open>x * 255\<close> convert their integer operand (Python raises
  OverflowError where this gives an infinity here: beyond \<open>10 ^ 308\<close>).\<close>

definition float_of_int :: "int \<Rightarrow> double" where
  "float_of_int n = rnd (of_int n)"

text \<open>\<^verbatim>\<open>int(x)\<close> truncates towards zero, and raises for an infinity or NaN.\<close>

fun int_of_float :: "double \<Rightarrow> error + int" where
  "int_of_float (Finite q) = Inr (if 0 \<le> q then \<lfloor>q\<rfloor> else \<lceil>q\<rceil>)"
| "int_of_float x = Inl FloatToIntError"

section \<open>DCKPESEncryptor (dckp\_es.py)\<close>

text \<open>
  A Python string is the list of the bytes of its UTF-8 encoding, so \<^verbatim>\<open>encode()\<close> only
  changes the type. The timestamp is represented by the string \<^verbatim>\<open>isoformat()\<close> gives
  for it. \<^verbatim>\<open>hashlib.sha256\<close> is the library's: it is the parameter \<open>sha\<close>.
\<close>

definition encode :: "string \<Rightarrow> u8 list" where
  "encode s = map of_char s"

text \<open>\<^verbatim>\<open>int.from_bytes(bs, 'big')\<close>.\<close>

definition from_bytes_big :: "u8 list \<Rightarrow> nat" where
  "from_bytes_big bs = foldl (\<lambda>acc b. acc * 256 + unat b) 0 bs"

text \<open>The slice \<^verbatim>\<open>xs[i:j]\<close> for \<open>0 \<le> i \<le> j\<close>: it stops at the end of \<open>xs\<close>.\<close>

definition pyslice :: "'a list \<Rightarrow> nat \<Rightarrow> nat \<Rightarrow> 'a list" where
  "pyslice xs i j = take (j - i) (drop i xs)"

definition CHAOS_R :: double where
  "CHAOS_R = rnd (399 / 100)"

record encryptor =
  filename :: string
  timestamp :: string
  key :: "u8 list"
  chaos_seed :: double

definition generate_keys :: "(u8 list \<Rightarrow> u8 list) \<Rightarrow> string \<Rightarrow> string \<Rightarrow> u8 list \<times> double" where
  "generate_keys sha fname iso_ts =
     (let unique_string = fname @ ''|'' @ iso_ts;
          hash_bytes = sha (encode unique_string);
          aes_key = pyslice hash_bytes 0 16;
          seed_int = from_bytes_big (pyslice hash_bytes 16 24);
          seed = fdiv (float_of_int (int (seed_int mod 1000000))) (Finite 1000000);
          seed' = fadd (rnd (1 / 10)) (fmul seed (rnd (4 / 5)))
      in (aes_key, seed'))"

definition DCKPESEncryptor :: "(u8 list \<Rightarrow> u8 list) \<Rightarrow> string \<Rightarrow> string \<Rightarrow> encryptor" where
  "DCKPESEncryptor sha fname iso_ts =
     \<lparr>filename = fname, timestamp = iso_ts,
      key = fst (generate_keys sha fname iso_ts),
      chaos_seed = snd (generate_keys sha fname iso_ts)\<rparr>"

text \<open>\<^verbatim>\<open>for _ in range(iterations): x = self.CHAOS_R * x * (1 - x)\<close>.\<close>

fun logistic_map :: "double \<Rightarrow> nat \<Rightarrow> double" where
  "logistic_map x 0 = x"
| "logistic_map x (Suc n) =
     logistic_map (fmul (fmul CHAOS_R x) (fsub (float_of_int 1) x)) n"

text \<open>
  The second loop of \<^verbatim>\<open>_generate_chaos_sequence\<close>, over the indices still to fill:
  \<^verbatim>\<open>x = self._logistic_map(x); sequence[i] = int(x * 255) % 256\<close>.
\<close>

fun chaos_loop :: "nat list \<Rightarrow> u8 list \<Rightarrow> double \<Rightarrow> error + u8 list" where
  "chaos_loop [] sequence x = Inr sequence"
| "chaos_loop (i # rest) sequence x =
     (case int_of_float (fmul (logistic_map x 1) (float_of_int 255)) of
        Inl e \<Rightarrow> Inl e
      | Inr v \<Rightarrow> chaos_loop rest (sequence[i := of_int (v mod 256)]) (logistic_map x 1))"

definition generate_chaos_sequence :: "encryptor \<Rightarrow> nat \<Rightarrow> error + u8 list" where
  "generate_chaos_sequence self n =
     chaos_loop [0..<n] (replicate n 0) (((\<lambda>x. logistic_map x 1) ^^ 100) (chaos_seed self))"

definition get_shuffle_seed :: "encryptor \<Rightarrow> nat" where
  "get_shuffle_seed self = from_bytes_big (pyslice (key self) 0 4)"

text \<open>
  \<^verbatim>\<open>np.bitwise_xor\<close> of two one-dimensional arrays. The operands of the modelled code
  have one length; numpy raises ValueError for lengths that differ (and are not 1).
\<close>

definition bitwise_xor :: "u8 list \<Rightarrow> u8 list \<Rightarrow> error + u8 list" where
  "bitwise_xor xs ys =
     (if length xs = length ys then Inr (map2 (XOR) xs ys)
      else if length xs = 1 then Inr (map ((XOR) (hd xs)) ys)
      else if length ys = 1 then Inr (map (\<lambda>x. x XOR hd ys) xs)
      else Inl ReshapeError)"

text \<open>The diffusion loops, over the indices they visit: \<^verbatim>\<open>a[i] = a[i] ^ a[i-1]\<close>.\<close>

fun diffusion_loop :: "nat list \<Rightarrow> u8 list \<Rightarrow> u8 list" where
  "diffusion_loop [] a = a"
| "diffusion_loop (i # rest) a = diffusion_loop rest (a[i := a ! i XOR a ! (i - 1)])"

definition encrypt_pixels :: "encryptor \<Rightarrow> u8 ndarray \<Rightarrow> error + u8 ndarray" where
  "encrypt_pixels self pixel_data =
     (let flat_data = flatten pixel_data
      in case generate_chaos_sequence self (length flat_data) of
           Inl e \<Rightarrow> Inl e
         | Inr chaos_seq \<Rightarrow>
             (case bitwise_xor flat_data chaos_seq of
                Inl e \<Rightarrow> Inl e
              | Inr encrypted \<Rightarrow>
                  reshape (diffusion_loop [1..<length encrypted] encrypted) (shape pixel_data)))"

definition decrypt_pixels :: "encryptor \<Rightarrow> u8 ndarray \<Rightarrow> error + u8 ndarray" where
  "decrypt_pixels self encrypted_data =
     (let flat_data = flatten encrypted_data;
          decrypted = diffusion_loop (rev [1..<length flat_data]) flat_data
      in case generate_chaos_sequence self (length flat_data) of
           Inl e \<Rightarrow> Inl e
         | Inr chaos_seq \<Rightarrow>
             (case bitwise_xor decrypted chaos_seq of
                Inl e \<Rightarrow> Inl e
              | Inr decrypted' \<Rightarrow> reshape decrypted' (shape encrypted_data)))"

section \<open>The keystream and the key material as the specification words them\<close>

text \<open>
  The specification's keystream: the logistic map \<open>x' = 3.99 * x * (1 - x)\<close>, the first
  100 iterates discarded, then byte \<open>i\<close> is \<open>floor (x * 255) mod 256\<close> of iterate
  \<open>100 + i + 1\<close>. The arithmetic is the float arithmetic of the implementation.
\<close>

definition spec_logistic :: "double \<Rightarrow> double" where
  "spec_logistic x = fmul (fmul (rnd (399 / 100)) x) (fsub (Finite 1) x)"

definition spec_emit :: "double \<Rightarrow> u8" where
  "spec_emit x = (case fmul x (Finite 255) of Finite w \<Rightarrow> of_int (\<lfloor>w\<rfloor> mod 256) | _ \<Rightarrow> 0)"

definition spec_keystream :: "double \<Rightarrow> nat \<Rightarrow> u8 list" where
  "spec_keystream x0 n = map (\<lambda>i. spec_emit ((spec_logistic ^^ (100 + i + 1)) x0)) [0..<n]"

text \<open>A float that is finite and lies in the closed unit interval.\<close>

definition in_unit :: "double \<Rightarrow> bool" where
  "in_unit x = (case x of Finite q \<Rightarrow> 0 \<le> q \<and> q \<le> 1 | _ \<Rightarrow> False)"

text \<open>
  The specification's key derivation: \<open>unique = filename + "|" + isoTimestamp\<close>,
  \<open>hash = SHA-256(unique)\<close>, \<open>symmetricKey = hash[0:16]\<close>,
  \<open>seedInt = bigEndianUint64(hash[16:24])\<close>,
  \<open>chaosSeed = 0.1 + 0.8 * ((seedInt mod 1_000_000) / 1_000_000)\<close> and
  \<open>shuffleSeedBase = bigEndianUint32(symmetricKey[0:4])\<close>.
\<close>

definition spec_key_material ::
  "(u8 list \<Rightarrow> u8 list) \<Rightarrow> string \<Rightarrow> string \<Rightarrow> u8 list \<times> double \<times> nat" where
  "spec_key_material sha fname iso_ts =
     (let unique = fname @ ''|'' @ iso_ts;
          hash = sha (encode unique);
          symmetricKey = take 16 hash;
          seedInt = from_bytes_big (take 8 (drop 16 hash));
          chaosSeed = fadd (rnd (1 / 10))
            (fmul (rnd (4 / 5))
               (fdiv (float_of_int (int (seedInt mod 1000000))) (float_of_int 1000000)));
          shuffleSeedBase = from_bytes_big (take 4 symmetricKey)
      in (symmetricKey, chaosSeed, shuffleSeedBase))"

text \<open>
  The SHA-256 digest of the 34 bytes \<^verbatim>\<open>doc.pdf|2024-01-01T00:00:00.208738\<close>, as
  \<^verbatim>\<open>hashlib.sha256\<close> returns it: bytes 16 to 23 are the big-endian integer
  5459944888012000000.
\<close>

definition example_digest :: "u8 list" where
  "example_digest =
     [0x54, 0x3f, 0x25, 0x40, 0xef, 0xe0, 0xd0, 0x03, 0x03, 0xc6, 0x43, 0x5d, 0xf6, 0x7a, 0xbe, 0x3d,
      0x4b, 0xc5, 0x9e, 0xf2, 0x97, 0x2a, 0x4b, 0x00, 0xdb, 0x2e, 0x1d, 0x42, 0xb4, 0xb0, 0xb2, 0xa7]"

text \<open>A hash function that agrees with SHA-256 on that string.\<close>

definition example_sha :: "u8 list \<Rightarrow> u8 list" where
  "example_sha msg = example_digest"

definition example_image :: "u8 ndarray" where
  "example_image = \<lparr>shape = [2, 2], elems = [1, 2, 3, 4]\<rparr>"

section \<open>The package format (dckp\_es.py)\<close>

text \<open>\<^verbatim>\<open>haystack.find(needle)\<close>: the lowest index at which \<open>needle\<close> occurs, if any.\<close>

definition occurs_at :: "'a list \<Rightarrow> 'a list \<Rightarrow> nat \<Rightarrow> bool" where
  "occurs_at needle haystack i =
     (i + length needle \<le> length haystack \<and> take (length needle) (drop i haystack) = needle)"

fun find_bytes :: "'a list \<Rightarrow> 'a list \<Rightarrow> nat option" where
  "find_bytes needle [] = (if needle = [] then Some 0 else None)"
| "find_bytes needle (x # xs) =
     (if take (length needle) (x # xs) = needle then Some 0
      else map_option Suc (find_bytes needle xs))"

definition MAGIC :: "u8 list" where
  "MAGIC = [0x41, 0x41, 0x52, 0x54, 0x48, 0x41]"

text \<open>
  \<^verbatim>\<open>struct.pack('>I', n)\<close> raises struct.error unless \<open>0 \<le> n < 2 ^ 32\<close>;
  \<^verbatim>\<open>struct.unpack\<close> raises it unless the buffer has the size of the format.
\<close>

definition pack_be32 :: "nat \<Rightarrow> error + u8 list" where
  "pack_be32 n =
     (if n < 4294967296
      then Inr [of_nat (n div 16777216 mod 256), of_nat (n div 65536 mod 256),
                of_nat (n div 256 mod 256), of_nat (n mod 256)]
      else Inl StructError)"

definition unpack_be32 :: "u8 list \<Rightarrow> error + nat" where
  "unpack_be32 bs = (if length bs = 4 then Inr (from_bytes_big bs) else Inl StructError)"

definition unpack_u8 :: "u8 list \<Rightarrow> error + nat" where
  "unpack_u8 bs = (case bs of [b] \<Rightarrow> Inr (unat b) | _ \<Rightarrow> Inl StructError)"

text \<open>
  \<^verbatim>\<open>idx.astype(np.int32).tobytes()\<close>: every index wraps to 32 bits and is written as
  four bytes, least significant first (the byte order of the machines the code runs on).
  \<^verbatim>\<open>np.frombuffer(raw, dtype=np.int32)\<close> reads them back as signed integers and raises
  ValueError when the size of the buffer is not a multiple of four.
\<close>

definition int32_bytes :: "int \<Rightarrow> u8 list" where
  "int32_bytes i =
     (let u = nat (i mod 4294967296)
      in [of_nat (u mod 256), of_nat (u div 256 mod 256),
          of_nat (u div 65536 mod 256), of_nat (u div 16777216 mod 256)])"

definition int32_of_bytes :: "u8 list \<Rightarrow> int" where
  "int32_of_bytes bs =
     (let u = from_bytes_big (rev bs)
      in if 2147483648 \<le> u then int u - 4294967296 else int u)"

fun groups4 :: "'a list \<Rightarrow> 'a list list" where
  "groups4 (a # b # c # d # rest) = [a, b, c, d] # groups4 rest"
| "groups4 _ = []"

definition int32_tobytes :: "int list \<Rightarrow> u8 list" where
  "int32_tobytes idx = concat (map int32_bytes idx)"

definition int32_frombuffer :: "u8 list \<Rightarrow> error + int list" where
  "int32_frombuffer raw =
     (if length raw mod 4 = 0 then Inr (map int32_of_bytes (groups4 raw)) else Inl ReshapeError)"

text \<open>
  \<^verbatim>\<open>np.frombuffer(raw, dtype=np.dtype(s)).reshape(shp)\<close>. The arrays of the model are
  uint8 arrays, the only ones the encoder writes; another dtype string is an error here.
\<close>

definition image_frombuffer :: "u8 list \<Rightarrow> string \<Rightarrow> nat list \<Rightarrow> error + u8 ndarray" where
  "image_frombuffer raw dtype shp =
     (if dtype = ''uint8'' then reshape raw shp else Inl Corrupt)"

record page_meta =
  img_shape :: "nat list"
  img_dtype :: string
  img_size :: nat
  shuffle_size :: nat
  metadata :: chunk_metadata

record package_meta =
  version :: string
  num_pages :: nat
  pages :: "page_meta list"

record extracted_page = page_meta +
  image_data :: "u8 ndarray"
  shuffle_indices :: "int list"

record extracted_package =
  pkg_version :: string
  pkg_num_pages :: nat
  pkg_pages :: "extracted_page list"

text \<open>The loop of \<^verbatim>\<open>create_encryption_package\<close> over the zipped page lists.\<close>

fun package_pages ::
  "(u8 ndarray \<times> chunk_metadata \<times> int list) list \<Rightarrow> page_meta list \<times> u8 list" where
  "package_pages [] = ([], [])"
| "package_pages ((img_data, md, shuffle_idx) # rest) =
     (let img_bytes = flatten img_data;
          shuffle_bytes = int32_tobytes shuffle_idx;
          entry = \<lparr>img_shape = shape img_data, img_dtype = ''uint8'',
                   img_size = length img_bytes, shuffle_size = length shuffle_bytes,
                   metadata = md\<rparr>;
          (pages_meta, binary_data) = package_pages rest
      in (entry # pages_meta, img_bytes @ shuffle_bytes @ binary_data))"

text \<open>
  \<^verbatim>\<open>json.dumps(package_meta).encode('utf-8')\<close> is the parameter \<open>dumps\<close>; decoding the
  bytes, \<^verbatim>\<open>json.loads\<close> and the lookups of the fields are the parameter \<open>loads\<close>, which
  gives None where one of them raises.
\<close>

definition create_encryption_package ::
  "(package_meta \<Rightarrow> u8 list) \<Rightarrow> u8 ndarray list \<Rightarrow> chunk_metadata list \<Rightarrow> int list list
     \<Rightarrow> u8 list \<Rightarrow> error + u8 list" where
  "create_encryption_package dumps encrypted_images metadata_list shuffle_indices_list prefix_bytes =
     (let (pages_meta, binary_data) =
            package_pages (zip encrypted_images (zip metadata_list shuffle_indices_list));
          pkg = \<lparr>version = ''1.0'', num_pages = length encrypted_images, pages = pages_meta\<rparr>;
          meta_json = dumps pkg
      in case pack_be32 (length meta_json) of
           Inl e \<Rightarrow> Inl e
         | Inr len_bytes \<Rightarrow>
             Inr (prefix_bytes @ (MAGIC @ [1] @ len_bytes) @ meta_json @ binary_data))"

text \<open>The loop of \<^verbatim>\<open>extract_encryption_package\<close> over the pages, from a binary offset.\<close>

fun extract_pages :: "page_meta list \<Rightarrow> u8 list \<Rightarrow> nat \<Rightarrow> error + extracted_page list" where
  "extract_pages [] binary_part binary_offset = Inr []"
| "extract_pages (page # rest) binary_part binary_offset =
     (case image_frombuffer (pyslice binary_part binary_offset (binary_offset + img_size page))
             (img_dtype page) (img_shape page) of
        Inl e \<Rightarrow> Inl e
      | Inr img \<Rightarrow>
          (case int32_frombuffer
                  (pyslice binary_part (binary_offset + img_size page)
                     (binary_offset + img_size page + shuffle_size page)) of
             Inl e \<Rightarrow> Inl e
           | Inr idx \<Rightarrow>
               (case extract_pages rest binary_part
                       (binary_offset + img_size page + shuffle_size page) of
                  Inl e \<Rightarrow> Inl e
                | Inr ps \<Rightarrow>
                    Inr (page_meta.extend page \<lparr>image_data = img, shuffle_indices = idx\<rparr> # ps))))"

definition extract_encryption_package ::
  "(u8 list \<Rightarrow> package_meta option) \<Rightarrow> u8 list \<Rightarrow> error + extracted_package" where
  "extract_encryption_package loads package_bytes =
     (case find_bytes MAGIC package_bytes of
        None \<Rightarrow> Inl InvalidFormat
      | Some magic_pos \<Rightarrow>
          (case unpack_u8 (pyslice package_bytes (magic_pos + 6) (magic_pos + 6 + 1)) of
             Inl e \<Rightarrow> Inl e
           | Inr ver \<Rightarrow>
               if ver \<noteq> 1 then Inl (UnsupportedVersion ver)
               else
                 (case unpack_be32 (pyslice package_bytes (magic_pos + 7) (magic_pos + 7 + 4)) of
                    Inl e \<Rightarrow> Inl e
                  | Inr meta_len \<Rightarrow>
                      (case loads (pyslice package_bytes (magic_pos + 11) (magic_pos + 11 + meta_len)) of
                         None \<Rightarrow> Inl Corrupt
                       | Some pkg \<Rightarrow>
                           (case extract_pages (pages pkg)
                                   (drop (magic_pos + 11 + meta_len) package_bytes) 0 of
                              Inl e \<Rightarrow> Inl e
                            | Inr ps \<Rightarrow>
                                Inr \<lparr>pkg_version = version pkg, pkg_num_pages = num_pages pkg,
                                     pkg_pages = ps\<rparr>)))))"

text \<open>The metadata record that \<^verbatim>\<open>create_encryption_package\<close> serialises, and the page
  that a decoder should give back for an encoded page.\<close>

definition built_meta :: "u8 ndarray list \<Rightarrow> chunk_metadata list \<Rightarrow> int list list \<Rightarrow> package_meta" where
  "built_meta encrypted_images metadata_list shuffle_indices_list =
     \<lparr>version = ''1.0'', num_pages = length encrypted_images,
      pages = fst (package_pages (zip encrypted_images (zip metadata_list shuffle_indices_list)))\<rparr>"

definition decoded_page :: "u8 ndarray \<times> chunk_metadata \<times> int list \<Rightarrow> extracted_page" where
  "decoded_page z =
     \<lparr>img_shape = shape (fst z), img_dtype = ''uint8'', img_size = length (flatten (fst z)),
      shuffle_size = 4 * length (snd (snd z)), metadata = fst (snd z),
      image_data = fst z, shuffle_indices = snd (snd z)\<rparr>"

text \<open>
  A one-page package for the examples, the text \<^verbatim>\<open>json.dumps\<close> writes for its metadata,
  and a serialiser and a parser that are right on that package.
\<close>

definition example_md :: chunk_metadata where
  "example_md = \<lparr>original_shape = [1, 3], original_size = 3, padding = 1,
                  num_chunks = 2, chunk_size = 2\<rparr>"

definition example_json :: string where
  \<open>example_json = ''{"version": "1.0", "num_pages": 1, "pages": [{"img_shape": [2, 2], "img_dtype": "uint8", "img_size": 4, "shuffle_size": 8, "metadata": {"original_shape": [1, 3], "original_size": 3, "padding": 1, "num_chunks": 2, "chunk_size": 2}}]}''\<close>

definition example_dumps :: "package_meta \<Rightarrow> u8 list" where
  "example_dumps m = encode example_json"

definition example_loads :: "u8 list \<Rightarrow> package_meta option" where
  "example_loads bs =
     (if bs = encode example_json
      then Some (built_meta [example_image] [example_md] [[1, 0]]) else None)"

text \<open>The package of the example page behind the five-byte prefix \<^verbatim>\<open>AARTH\<close>.\<close>

definition example_bad_package :: "u8 list" where
  "example_bad_package =
     encode ''AARTH'' @ MAGIC @ [1] @ [0, 0, 0, 232] @ encode example_json
       @ [1, 2, 3, 4] @ [1, 0, 0, 0, 0, 0, 0, 0]"

section \<open>EncryptionOrchestrator (encryption\_orchestrator.py)\<close>

text \<open>
  The orchestrator between its collaborators: the pages are the images the renderer gives
  (\<^verbatim>\<open>pdf_to_images\<close>) and the images handed to \<^verbatim>\<open>images_to_pdf\<close>; storage, the transfer
  record, the previews and the e-mail are left out. The timestamp of \<^verbatim>\<open>encrypt_pdf\<close>
  (\<^verbatim>\<open>datetime.utcnow()\<close>) is an argument, as its \<^verbatim>\<open>isoformat()\<close> string.
\<close>

text \<open>The body of the page loop of \<^verbatim>\<open>encrypt_pdf\<close>: chunk, shuffle with
  \<^verbatim>\<open>shuffle_seed + page_num\<close>, encrypt.\<close>

definition encrypt_page ::
  "(int \<Rightarrow> nat \<Rightarrow> int list) \<Rightarrow> nat \<Rightarrow> encryptor \<Rightarrow> nat \<Rightarrow> nat \<Rightarrow> u8 ndarray
     \<Rightarrow> error + (u8 ndarray \<times> chunk_metadata \<times> int list)" where
  "encrypt_page rng cs encryptor shuffle_seed page_num img =
     (case chunk_pixels cs img of
        Inl e \<Rightarrow> Inl e
      | Inr (chunks, md) \<Rightarrow>
          (case shuffle_chunks rng chunks (int shuffle_seed + int page_num) of
             Inl e \<Rightarrow> Inl e
           | Inr (shuffled_chunks, shuffle_idx) \<Rightarrow>
               (case encrypt_pixels encryptor shuffled_chunks of
                  Inl e \<Rightarrow> Inl e
                | Inr encrypted_chunks \<Rightarrow> Inr (encrypted_chunks, md, shuffle_idx))))"

text \<open>\<^verbatim>\<open>for page_num, image in enumerate(images)\<close>, from the page number reached.\<close>

fun encrypt_pages ::
  "(int \<Rightarrow> nat \<Rightarrow> int list) \<Rightarrow> nat \<Rightarrow> encryptor \<Rightarrow> nat \<Rightarrow> nat \<Rightarrow> u8 ndarray list
     \<Rightarrow> error + (u8 ndarray \<times> chunk_metadata \<times> int list) list" where
  "encrypt_pages rng cs encryptor shuffle_seed page_num [] = Inr []"
| "encrypt_pages rng cs encryptor shuffle_seed page_num (img # rest) =
     (case encrypt_page rng cs encryptor shuffle_seed page_num img of
        Inl e \<Rightarrow> Inl e
      | Inr r \<Rightarrow>
          (case encrypt_pages rng cs encryptor shuffle_seed (Suc page_num) rest of
             Inl e \<Rightarrow> Inl e
           | Inr rs \<Rightarrow> Inr (r # rs)))"

text \<open>
  \<^verbatim>\<open>encrypt_pdf\<close> up to the package and the key string. The PNG encoder of the preview is
  the parameter \<open>png\<close>; whatever fails while the prefix is made is caught, and the prefix is
  then empty.
\<close>

definition make_prefix ::
  "(u8 ndarray \<Rightarrow> u8 list option) \<Rightarrow> (u8 ndarray \<times> chunk_metadata \<times> int list) list \<Rightarrow> u8 list" where
  "make_prefix png rs =
     (case rs of
        [] \<Rightarrow> []
      | (enc, md, idx) # _ \<Rightarrow>
          (case unchunk_pixels enc md of
             Inl e \<Rightarrow> []
           | Inr preview_img \<Rightarrow> (case png preview_img of None \<Rightarrow> [] | Some bs \<Rightarrow> bs)))"

definition encrypt_pdf ::
  "(int \<Rightarrow> nat \<Rightarrow> int list) \<Rightarrow> (u8 list \<Rightarrow> u8 list) \<Rightarrow> (package_meta \<Rightarrow> u8 list)
     \<Rightarrow> (u8 ndarray \<Rightarrow> u8 list option) \<Rightarrow> nat \<Rightarrow> u8 ndarray list \<Rightarrow> string \<Rightarrow> string
     \<Rightarrow> error + (u8 list \<times> string)" where
  "encrypt_pdf rng sha dumps png cs images original_filename iso_ts =
     (let encryptor = DCKPESEncryptor sha original_filename iso_ts;
          shuffle_seed = get_shuffle_seed encryptor
      in case encrypt_pages rng cs encryptor shuffle_seed 0 images of
           Inl e \<Rightarrow> Inl e
         | Inr rs \<Rightarrow>
             (case create_encryption_package dumps (map fst rs) (map (fst \<circ> snd) rs)
                     (map (snd \<circ> snd) rs) (make_prefix png rs) of
                Inl e \<Rightarrow> Inl e
              | Inr package_bytes \<Rightarrow> Inr (package_bytes, original_filename @ ''|'' @ iso_ts)))"

text \<open>\<^verbatim>\<open>s.split('|')\<close>.\<close>

fun split_bar :: "string \<Rightarrow> string list" where
  "split_bar [] = [[]]"
| "split_bar (c # cs) =
     (if c = CHR ''|'' then [] # split_bar cs
      else (case split_bar cs of w # ws \<Rightarrow> (c # w) # ws | [] \<Rightarrow> [[c]]))"

text \<open>The body of the page loop of \<^verbatim>\<open>decrypt_pdf\<close>: decrypt, unshuffle with the
  \<^verbatim>\<open>shuffle_indices\<close> of the page, unchunk with its \<^verbatim>\<open>metadata\<close>.\<close>

definition decrypt_page :: "encryptor \<Rightarrow> extracted_page \<Rightarrow> error + u8 ndarray" where
  "decrypt_page encryptor page_data =
     (case decrypt_pixels encryptor (image_data page_data) of
        Inl e \<Rightarrow> Inl e
      | Inr decrypted_chunks \<Rightarrow>
          (case unshuffle_chunks decrypted_chunks (shuffle_indices page_data) of
             Inl e \<Rightarrow> Inl e
           | Inr unshuffled_chunks \<Rightarrow> unchunk_pixels unshuffled_chunks (metadata page_data)))"

fun decrypt_pages :: "encryptor \<Rightarrow> extracted_page list \<Rightarrow> error + u8 ndarray list" where
  "decrypt_pages encryptor [] = Inr []"
| "decrypt_pages encryptor (page_data # rest) =
     (case decrypt_page encryptor page_data of
        Inl e \<Rightarrow> Inl e
      | Inr img \<Rightarrow>
          (case decrypt_pages encryptor rest of
             Inl e \<Rightarrow> Inl e
           | Inr imgs \<Rightarrow> Inr (img # imgs)))"

text \<open>
  \<^verbatim>\<open>decrypt_pdf\<close>. \<^verbatim>\<open>datetime.fromisoformat\<close> followed by the \<^verbatim>\<open>isoformat()\<close> of the
  constructor is the parameter \<open>reformat\<close>, None where the string is no timestamp.
\<close>

definition decrypt_pdf ::
  "(u8 list \<Rightarrow> u8 list) \<Rightarrow> (u8 list \<Rightarrow> package_meta option) \<Rightarrow> (string \<Rightarrow> string option)
     \<Rightarrow> u8 list \<Rightarrow> string \<Rightarrow> error + (u8 ndarray list \<times> nat \<times> string)" where
  "decrypt_pdf sha loads reformat encrypted_bytes decryption_key =
     (case split_bar decryption_key of
        [fname, timestamp_str] \<Rightarrow>
          (case extract_encryption_package loads encrypted_bytes of
             Inl e \<Rightarrow> Inl e
           | Inr package \<Rightarrow>
               (case reformat timestamp_str of
                  None \<Rightarrow> Inl InvalidKey
                | Some iso_ts \<Rightarrow>
                    (case decrypt_pages (DCKPESEncryptor sha fname iso_ts) (pkg_pages package) of
                       Inl e \<Rightarrow> Inl e
                     | Inr decrypted_images \<Rightarrow>
                         Inr (decrypted_images, length decrypted_images, fname))))
      | _ \<Rightarrow> Inl InvalidKey)"

text \<open>
  The page step as claim C9 words it: the permutation is regenerated from the key
  material, with the seed \<open>shuffleSeedBase + p\<close>, and its argsort is applied.
\<close>

definition spec_decrypt_page ::
  "(int \<Rightarrow> nat \<Rightarrow> int list) \<Rightarrow> encryptor \<Rightarrow> nat \<Rightarrow> extracted_page \<Rightarrow> error + u8 ndarray" where
  "spec_decrypt_page rng encryptor p page_data =
     (case decrypt_pixels encryptor (image_data page_data) of
        Inl e \<Rightarrow> Inl e
      | Inr decrypted_chunks \<Rightarrow>
          (case len_array decrypted_chunks of
             Inl e \<Rightarrow> Inl e
           | Inr n \<Rightarrow>
               (case take_rows decrypted_chunks
                       (argsort (generate_shuffle_indices rng n
                          (int (get_shuffle_seed encryptor) + int p))) of
                  Inl e \<Rightarrow> Inl e
                | Inr unshuffled_chunks \<Rightarrow> unchunk_pixels unshuffled_chunks (metadata page_data))))"

text \<open>
  For the examples: a generator that leaves every index array in order, the key material
  of the example key, and a page of a package whose ciphertext is the one of
  \<open>example_image\<close> under that key and whose stored permutation exchanges the two chunks.
\<close>

definition example_rng :: "int \<Rightarrow> nat \<Rightarrow> int list" where
  "example_rng seed n = map int [0..<n]"

definition example_encryptor :: encryptor where
  "example_encryptor = DCKPESEncryptor example_sha ''doc.pdf'' ''2024-01-01T00:00:00.208738''"

definition example_page :: extracted_page where
  "example_page =
     \<lparr>img_shape = [2, 2], img_dtype = ''uint8'', img_size = 4, shuffle_size = 8,
      metadata = \<lparr>original_shape = [4], original_size = 4, padding = 0,
                  num_chunks = 2, chunk_size = 2\<rparr>,
      image_data = (case encrypt_pixels example_encryptor example_image of
                      Inr Y \<Rightarrow> Y | Inl e \<Rightarrow> example_image),
      shuffle_indices = [1, 0]\<rparr>"

section \<open>Properties of chunking and shuffling\<close>
















section \<open>Properties of the float model\<close>

lemma powi_bitlen_bounds:
  assumes "0 < a"
  shows "(2::rat) powi (bitlen a - 1) \<le> of_int a" and "of_int a < (2::rat) powi (bitlen a)"
proof -
  have b: "2 ^ nat (bitlen a - 1) \<le> a" "a < 2 ^ nat (bitlen a)"
    using bitlen_bounds [OF assms] by auto
  have p: "1 \<le> bitlen a" using assms bitlen_bounds [OF assms]
    by (metis b(2) bitlen_nonneg less_le_not_le nat_0_iff not_less one_le_power power_0 zless_imp_add1_zle zero_less_one add_0 linorder_not_less nat_le_0 one_add_one)
  have "(2::rat) powi (bitlen a - 1) = of_int (2 ^ nat (bitlen a - 1))"
    using p by (simp add: power_int_def)
  also have "\<dots> \<le> of_int a" using b(1) by (simp only: of_int_le_iff)
  finally show "(2::rat) powi (bitlen a - 1) \<le> of_int a" .
  have "of_int a < (of_int (2 ^ nat (bitlen a)) :: rat)" using b(2) by (simp only: of_int_less_iff)
  also have "\<dots> = 2 powi (bitlen a)" using p by (simp add: power_int_def)
  finally show "of_int a < (2::rat) powi (bitlen a)" .
qed

lemma powi2_less_iff: "(2::rat) powi a < 2 powi b \<longleftrightarrow> a < b"
proof
  assume l: "(2::rat) powi a < 2 powi b"
  show "a < b"
  proof (rule ccontr)
    assume "\<not> a < b"
    then have "b \<le> a" by simp
    then have "(2::rat) powi b \<le> 2 powi a" by (intro power_int_increasing) simp_all
    then show False using l by simp
  qed
next
  assume "a < b"
  then show "(2::rat) powi a < 2 powi b" by (intro power_int_strict_increasing) simp_all
qed

lemma powi2_le_iff: "(2::rat) powi a \<le> 2 powi b \<longleftrightarrow> a \<le> b"
  using powi2_less_iff [of b a] by (auto simp: not_less [symmetric])

lemma ilog2_bounds:
  assumes "q \<noteq> 0"
  shows "2 powi (ilog2 q) \<le> \<bar>q\<bar>" and "\<bar>q\<bar> < 2 powi (ilog2 q + 1)"
proof -
  obtain a b where ab: "quotient_of \<bar>q\<bar> = (a, b)" by (cases "quotient_of \<bar>q\<bar>")
  have b0: "0 < b" using ab by (rule quotient_of_denom_pos)
  have qa: "\<bar>q\<bar> = of_int a / of_int b" using ab by (rule quotient_of_div)
  have "0 < \<bar>q\<bar>" using assms by simp
  then have a0: "0 < a" using qa b0 by (simp add: zero_less_divide_iff)
  let ?d = "bitlen a - bitlen b"
  have A: "(2::rat) powi (bitlen a - 1) \<le> of_int a" "of_int a < (2::rat) powi (bitlen a)"
    using powi_bitlen_bounds [OF a0] by auto
  have B: "(2::rat) powi (bitlen b - 1) \<le> of_int b" "of_int b < (2::rat) powi (bitlen b)"
    using powi_bitlen_bounds [OF b0] by auto
  have bpos: "(0::rat) < of_int b" using b0 by simp
  have lo: "2 powi (?d - 1) < \<bar>q\<bar>"
  proof -
    have "(2::rat) powi (?d - 1) * of_int b < 2 powi (?d - 1) * 2 powi (bitlen b)"
      using B(2) by (intro mult_strict_left_mono) simp_all
    also have "\<dots> = 2 powi (bitlen a - 1)"
      by (simp add: power_int_add [symmetric])
    also have "\<dots> \<le> of_int a" using A(1) .
    finally show ?thesis using bpos by (simp add: qa pos_less_divide_eq)
  qed
  have hi: "\<bar>q\<bar> < 2 powi (?d + 1)"
  proof -
    have "(of_int a :: rat) < 2 powi (bitlen a)" using A(2) .
    also have "\<dots> = 2 powi (?d + 1) * 2 powi (bitlen b - 1)"
      by (simp add: power_int_add [symmetric])
    also have "\<dots> \<le> 2 powi (?d + 1) * of_int b"
      using B(1) by (intro mult_left_mono) simp_all
    finally show ?thesis using bpos by (simp add: qa pos_divide_less_eq)
  qed
  have il: "ilog2 q = (if 2 powi ?d \<le> \<bar>q\<bar> then ?d else ?d - 1)"
    using ab by (simp add: ilog2_def Let_def)
  show "2 powi (ilog2 q) \<le> \<bar>q\<bar>" using il lo by (auto simp: less_imp_le)
  show "\<bar>q\<bar> < 2 powi (ilog2 q + 1)" using il hi by auto
qed

lemma ilog2_unique:
  assumes "2 powi e \<le> \<bar>q\<bar>" and "\<bar>q\<bar> < 2 powi (e + 1)"
  shows "ilog2 q = e"
proof -
  have "0 < (2::rat) powi e" by simp
  then have "0 < \<bar>q\<bar>" using assms(1) by linarith
  then have q0: "q \<noteq> 0" by simp
  note b = ilog2_bounds [OF q0]
  have "(2::rat) powi e < 2 powi (ilog2 q + 1)" using assms(1) b(2) by (rule le_less_trans)
  then have 1: "e < ilog2 q + 1" by (simp only: powi2_less_iff)
  have "(2::rat) powi (ilog2 q) < 2 powi (e + 1)" using b(1) assms(2) by (rule le_less_trans)
  then have 2: "ilog2 q < e + 1" by (simp only: powi2_less_iff)
  show ?thesis using 1 2 by simp
qed

lemma rhe_cases:
  "round_half_even m = \<lfloor>m\<rfloor> \<or> (round_half_even m = \<lfloor>m\<rfloor> + 1 \<and> 1 / 2 \<le> m - of_int \<lfloor>m\<rfloor>)"
  by (auto simp: round_half_even_def Let_def)

lemma rhe_ge: "of_int k \<le> m \<Longrightarrow> k \<le> round_half_even m"
proof -
  assume "of_int k \<le> m"
  then have "k \<le> \<lfloor>m\<rfloor>" by (simp add: le_floor_iff)
  then show ?thesis using rhe_cases [of m] by auto
qed

lemma rhe_le: "m \<le> of_int k \<Longrightarrow> round_half_even m \<le> k"
proof -
  assume a: "m \<le> of_int k"
  then have f: "\<lfloor>m\<rfloor> \<le> k" by (meson floor_le_iff le_less_trans less_add_one linorder_not_less of_int_floor_le order_trans floor_mono floor_of_int)
  show ?thesis
  proof (cases "round_half_even m = \<lfloor>m\<rfloor>")
    case True
    then show ?thesis using f by simp
  next
    case False
    then have r: "round_half_even m = \<lfloor>m\<rfloor> + 1" "1 / 2 \<le> m - of_int \<lfloor>m\<rfloor>"
      using rhe_cases [of m] by auto
    have "\<lfloor>m\<rfloor> \<noteq> k"
    proof
      assume "\<lfloor>m\<rfloor> = k"
      then have "m - of_int \<lfloor>m\<rfloor> \<le> 0" using a by simp
      then show False using r(2) by simp
    qed
    then show ?thesis using f r(1) by simp
  qed
qed

lemma rhe_error:
  "\<bar>of_int (round_half_even m) - m\<bar> \<le> 1 / 2"
proof -
  have 1: "of_int \<lfloor>m\<rfloor> \<le> m" by simp
  have 2: "m < of_int \<lfloor>m\<rfloor> + 1" by linarith
  show ?thesis using 1 2
    by (auto simp: round_half_even_def Let_def abs_le_iff) 
qed

lemma rhe_mono:
  assumes "m1 \<le> m2"
  shows "round_half_even m1 \<le> round_half_even m2"
proof (cases "\<lfloor>m1\<rfloor> = \<lfloor>m2\<rfloor>")
  case True
  have "m1 - of_int \<lfloor>m1\<rfloor> \<le> m2 - of_int \<lfloor>m2\<rfloor>" using assms True by simp
  then show ?thesis using True
    by (auto simp: round_half_even_def Let_def)
next
  case False
  have "\<lfloor>m1\<rfloor> \<le> \<lfloor>m2\<rfloor>" using assms by (rule floor_mono)
  then have "\<lfloor>m1\<rfloor> + 1 \<le> \<lfloor>m2\<rfloor>" using False by simp
  moreover have "round_half_even m1 \<le> \<lfloor>m1\<rfloor> + 1" using rhe_cases [of m1] by auto
  moreover have "\<lfloor>m2\<rfloor> \<le> round_half_even m2" using rhe_cases [of m2] by auto
  ultimately show ?thesis by linarith
qed

lemma round_rat_nonneg:
  assumes "0 \<le> q"
  shows "0 \<le> round_rat q"
proof (cases "q = 0")
  case True
  then show ?thesis by (simp add: round_rat_def)
next
  case False
  have "(0::rat) \<le> q / 2 powi ulp_exp q" using assms by simp
  then have "of_int 0 \<le> q / 2 powi ulp_exp q" by simp
  then have "0 \<le> round_half_even (q / 2 powi ulp_exp q)" by (rule rhe_ge)
  then show ?thesis using False by (simp add: round_rat_def)
qed

lemma ilog2_le:
  assumes "0 < q" and "q \<le> 2 powi k"
  shows "ilog2 q \<le> k"
proof -
  have "q \<noteq> 0" using assms(1) by simp
  from ilog2_bounds(1) [OF this] have "2 powi (ilog2 q) \<le> q" using assms(1) by simp
  then have "(2::rat) powi (ilog2 q) \<le> 2 powi k" using assms(2) by (rule order_trans)
  then show ?thesis by (simp only: powi2_le_iff)
qed

lemma ilog2_ge:
  assumes "2 powi k \<le> q"
  shows "k \<le> ilog2 q"
proof -
  have "0 < (2::rat) powi k" by simp
  then have q: "0 < q" using assms by linarith
  then have "q \<noteq> 0" by simp
  from ilog2_bounds(2) [OF this] have "q < 2 powi (ilog2 q + 1)" using q by simp
  with assms have "(2::rat) powi k < 2 powi (ilog2 q + 1)" by (rule le_less_trans)
  then have "k < ilog2 q + 1" by (simp only: powi2_less_iff)
  then show ?thesis by simp
qed

lemma powi2_of_int:
  assumes "0 \<le> j"
  shows "(2::rat) powi j = of_int (2 ^ nat j)"
  using assms by (simp add: power_int_def)

lemma round_rat_le_pow2:
  assumes "0 \<le> q" and "q \<le> 2 powi k" and "- 1074 \<le> k"
  shows "round_rat q \<le> 2 powi k"
proof (cases "q = 0")
  case True
  then show ?thesis by (simp add: round_rat_def)
next
  case False
  then have q: "0 < q" using assms(1) by simp
  let ?t = "ulp_exp q"
  have "ilog2 q \<le> k" using q assms(2) by (rule ilog2_le)
  then have tk: "?t \<le> k" using assms(3) by (simp add: ulp_exp_def)
  have "q / 2 powi ?t \<le> 2 powi k / 2 powi ?t"
    using assms(2) by (intro divide_right_mono) simp_all
  also have "\<dots> = 2 powi (k - ?t)" by (simp add: power_int_diff)
  also have "\<dots> = of_int (2 ^ nat (k - ?t))" using tk by (intro powi2_of_int) simp
  finally have "round_half_even (q / 2 powi ?t) \<le> 2 ^ nat (k - ?t)" by (rule rhe_le)
  then have "(of_int (round_half_even (q / 2 powi ?t)) :: rat) \<le> of_int (2 ^ nat (k - ?t))"
    by (simp only: of_int_le_iff)
  also have "\<dots> = 2 powi (k - ?t)" using tk by (intro powi2_of_int [symmetric]) simp
  finally have "of_int (round_half_even (q / 2 powi ?t)) * 2 powi ?t \<le> (2::rat) powi (k - ?t) * 2 powi ?t"
    by (intro mult_right_mono) simp_all
  also have "\<dots> = 2 powi k" by (simp add: power_int_add [symmetric])
  finally show ?thesis using False by (simp add: round_rat_def)
qed

lemma round_rat_ge_pow2:
  assumes "2 powi k \<le> q" and "ulp_exp q \<le> k"
  shows "2 powi k \<le> round_rat q"
proof -
  have "0 < (2::rat) powi k" by simp
  then have q: "0 < q" using assms(1) by linarith
  let ?t = "ulp_exp q"
  have "(of_int (2 ^ nat (k - ?t)) :: rat) = 2 powi (k - ?t)"
    using assms(2) by (intro powi2_of_int [symmetric]) simp
  also have "\<dots> = 2 powi k / 2 powi ?t" by (simp add: power_int_diff)
  also have "\<dots> \<le> q / 2 powi ?t" using assms(1) by (intro divide_right_mono) simp_all
  finally have "2 ^ nat (k - ?t) \<le> round_half_even (q / 2 powi ?t)" by (rule rhe_ge)
  then have "(of_int (2 ^ nat (k - ?t)) :: rat) \<le> of_int (round_half_even (q / 2 powi ?t))"
    by (simp only: of_int_le_iff)
  then have "(2::rat) powi (k - ?t) \<le> of_int (round_half_even (q / 2 powi ?t))"
    using assms(2) powi2_of_int [of "k - ?t"] by simp
  then have "(2::rat) powi (k - ?t) * 2 powi ?t \<le> of_int (round_half_even (q / 2 powi ?t)) * 2 powi ?t"
    by (intro mult_right_mono) simp_all
  moreover have "(2::rat) powi (k - ?t) * 2 powi ?t = 2 powi k" by (simp add: power_int_add [symmetric])
  ultimately show ?thesis using q by (simp add: round_rat_def)
qed

lemma round_rat_error:
  assumes "0 < q"
  shows "\<bar>round_rat q - q\<bar> \<le> 2 powi (ulp_exp q) / 2"
proof -
  let ?s = "(2::rat) powi (ulp_exp q)"
  have s: "0 < ?s" by simp
  have "\<bar>of_int (round_half_even (q / ?s)) - q / ?s\<bar> \<le> 1 / 2" by (rule rhe_error)
  then have "\<bar>of_int (round_half_even (q / ?s)) - q / ?s\<bar> * ?s \<le> 1 / 2 * ?s"
    using s by (intro mult_right_mono) simp_all
  moreover have "\<bar>of_int (round_half_even (q / ?s)) - q / ?s\<bar> * ?s
      = \<bar>of_int (round_half_even (q / ?s)) * ?s - q\<bar>"
  proof -
    have "\<bar>of_int (round_half_even (q / ?s)) - q / ?s\<bar> * ?s
        = \<bar>(of_int (round_half_even (q / ?s)) - q / ?s) * ?s\<bar>"
      using s by (simp add: abs_mult)
    also have "(of_int (round_half_even (q / ?s)) - q / ?s) * ?s
        = of_int (round_half_even (q / ?s)) * ?s - q"
      using s by (simp add: left_diff_distrib)
    finally show ?thesis .
  qed
  ultimately show ?thesis using assms by (simp add: round_rat_def)
qed

lemma ulp_bound:
  assumes "0 < q"
  shows "2 powi (ulp_exp q) / 2 \<le> q * 2 powi (- 53) + 2 powi (- 1075)"
proof (cases "ilog2 q - 52 \<le> - 1074")
  case True
  then have "ulp_exp q = - 1074" by (simp add: ulp_exp_def)
  then have "(2::rat) powi (ulp_exp q) / 2 = 2 powi (- 1075)"
    by (simp add: power_int_minus field_simps)
  moreover have "0 \<le> q * 2 powi (- 53)" using assms by simp
  ultimately show ?thesis by linarith
next
  case False
  then have u: "ulp_exp q = ilog2 q - 52" by (simp add: ulp_exp_def)
  have "q \<noteq> 0" using assms by simp
  from ilog2_bounds(1) [OF this] have "2 powi (ilog2 q) \<le> q" using assms by simp
  then have "2 powi (ilog2 q) * 2 powi (- 53) \<le> q * 2 powi (- 53)"
    by (intro mult_right_mono) simp_all
  moreover have "(2::rat) powi (ilog2 q) * 2 powi (- 53) = 2 powi (ilog2 q - 52) / 2"
  proof -
    have a: "(2::rat) powi (ilog2 q + (- 53)) = 2 powi (ilog2 q) * 2 powi (- 53)"
      by (rule power_int_add) simp
    have b: "(2::rat) powi ((ilog2 q - 52) + (- 1)) = 2 powi (ilog2 q - 52) * 2 powi (- 1)"
      by (rule power_int_add) simp
    have c: "ilog2 q + (- 53) = (ilog2 q - 52) + (- 1)" by simp
    have "(2::rat) powi (ilog2 q) * 2 powi (- 53) = 2 powi (ilog2 q - 52) * 2 powi (- 1)"
      using a [unfolded c] b by (rule trans [OF sym])
    also have "(2::rat) powi (- 1) = 1 / 2" by (simp add: power_int_minus)
    finally show ?thesis by simp
  qed
  moreover have "(0::rat) \<le> 2 powi (- 1075)" by simp
  ultimately show ?thesis unfolding u by linarith
qed

lemma round_rat_upper:
  assumes "0 \<le> q"
  shows "round_rat q \<le> q + (q * 2 powi (- 53) + 2 powi (- 1075))"
proof (cases "q = 0")
  case True
  then show ?thesis by (simp add: round_rat_def)
next
  case False
  then have q: "0 < q" using assms by simp
  have "round_rat q - q \<le> 2 powi (ulp_exp q) / 2"
    using round_rat_error [OF q] abs_ge_self [of "round_rat q - q"] by linarith
  then show ?thesis using ulp_bound [OF q] by linarith
qed

lemma round_rat_lower:
  assumes "0 \<le> q"
  shows "q - (q * 2 powi (- 53) + 2 powi (- 1075)) \<le> round_rat q"
proof (cases "q = 0")
  case True
  then show ?thesis by (simp add: round_rat_def)
next
  case False
  then have q: "0 < q" using assms by simp
  have "q - round_rat q \<le> 2 powi (ulp_exp q) / 2"
    using round_rat_error [OF q] abs_ge_minus_self [of "round_rat q - q"] by linarith
  then show ?thesis using ulp_bound [OF q] by linarith
qed

lemma ilog2_mono:
  assumes "0 < q1" and "q1 \<le> q2"
  shows "ilog2 q1 \<le> ilog2 q2"
proof -
  have "q1 \<noteq> 0" using assms(1) by simp
  from ilog2_bounds(1) [OF this] have "2 powi (ilog2 q1) \<le> q1" using assms(1) by simp
  then have "2 powi (ilog2 q1) \<le> q2" using assms(2) by (rule order_trans)
  then show ?thesis by (rule ilog2_ge)
qed

lemma round_rat_mono:
  assumes "0 \<le> q1" and "q1 \<le> q2"
  shows "round_rat q1 \<le> round_rat q2"
proof (cases "q1 = 0")
  case True
  have "0 \<le> round_rat q2" using assms by (intro round_rat_nonneg) simp
  then show ?thesis using True by (simp add: round_rat_def)
next
  case False
  then have p1: "0 < q1" using assms(1) by simp
  then have p2: "0 < q2" using assms(2) by simp
  have e: "ilog2 q1 \<le> ilog2 q2" using p1 assms(2) by (rule ilog2_mono)
  then have t: "ulp_exp q1 \<le> ulp_exp q2" by (simp add: ulp_exp_def)
  show ?thesis
  proof (cases "ulp_exp q1 = ulp_exp q2")
    case True
    let ?s = "(2::rat) powi (ulp_exp q2)"
    have "q1 / ?s \<le> q2 / ?s" using assms(2) by (intro divide_right_mono) simp_all
    then have "round_half_even (q1 / ?s) \<le> round_half_even (q2 / ?s)" by (rule rhe_mono)
    then have "(of_int (round_half_even (q1 / ?s)) :: rat) \<le> of_int (round_half_even (q2 / ?s))"
      by (simp only: of_int_le_iff)
    then have "of_int (round_half_even (q1 / ?s)) * ?s \<le> of_int (round_half_even (q2 / ?s)) * ?s"
      by (intro mult_right_mono) simp_all
    then show ?thesis using p1 p2 True by (simp add: round_rat_def)
  next
    case False
    then have lt: "ulp_exp q1 < ulp_exp q2" using t by simp
    then have u2: "ulp_exp q2 = ilog2 q2 - 52" and e12: "ilog2 q1 < ilog2 q2"
      and n2: "- 1074 < ilog2 q2 - 52"
      by (auto simp: ulp_exp_def max_def split: if_splits)
    let ?k = "max (ilog2 q1 + 1) (- 1074)"
    have "q1 \<noteq> 0" using p1 by simp
    from ilog2_bounds(2) [OF this] have "q1 < 2 powi (ilog2 q1 + 1)" using p1 by simp
    also have "(2::rat) powi (ilog2 q1 + 1) \<le> 2 powi ?k"
      by (simp only: powi2_le_iff)
    finally have "q1 \<le> 2 powi ?k" by simp
    then have a: "round_rat q1 \<le> 2 powi ?k"
      using assms(1) by (intro round_rat_le_pow2) simp_all
    have k2: "?k \<le> ilog2 q2" using e12 n2 by simp
    then have b: "(2::rat) powi ?k \<le> 2 powi (ilog2 q2)" by (simp only: powi2_le_iff)
    have "q2 \<noteq> 0" using p2 by simp
    from ilog2_bounds(1) [OF this] have "2 powi (ilog2 q2) \<le> q2" using p2 by simp
    then have c: "2 powi (ilog2 q2) \<le> round_rat q2"
      using u2 by (intro round_rat_ge_pow2) simp_all
    show ?thesis using a b c by linarith
  qed
qed

lemma rnd_Finite:
  assumes "0 \<le> q" and "q \<le> 2 powi k" and "- 1074 \<le> k" and "2 powi k \<le> max_double"
  shows "rnd q = Finite (round_rat q)" and "0 \<le> round_rat q" and "round_rat q \<le> 2 powi k"
proof -
  show n: "0 \<le> round_rat q" using assms(1) by (rule round_rat_nonneg)
  show u: "round_rat q \<le> 2 powi k" using assms(1,2,3) by (rule round_rat_le_pow2)
  have "0 < max_double" by (simp add: max_double_def)
  then show "rnd q = Finite (round_rat q)"
    using n u assms(4) by (simp add: rnd_def Let_def)
qed

lemma pow2_le_max_double:
  "(2::rat) powi 0 \<le> max_double" "(2::rat) powi 2 \<le> max_double" "(2::rat) powi 8 \<le> max_double"
  by (simp_all add: max_double_def)

lemma rhe_of_int: "round_half_even (of_int k) = k"
  by (simp add: round_half_even_def)

lemma round_rat_of_int:
  assumes "0 \<le> n" and "n < 2 ^ 53"
  shows "round_rat (of_int n) = of_int n"
proof (cases "n = 0")
  case True
  then show ?thesis by (simp add: round_rat_def)
next
  case False
  then have n: "0 < n" using assms(1) by simp
  let ?q = "of_int n :: rat"
  let ?t = "ulp_exp ?q"
  have q: "0 < ?q" using n by simp
  have "?q \<le> of_int (2 ^ nat 53)" using assms(2) by (simp only: of_int_le_iff) simp
  also have "\<dots> = (2::rat) powi 53" by (rule powi2_of_int [symmetric]) simp
  finally have "ilog2 ?q \<le> 53" using q by (intro ilog2_le)
  moreover have "ilog2 ?q \<noteq> 53"
  proof
    assume e: "ilog2 ?q = 53"
    have "?q \<noteq> 0" using q by simp
    from ilog2_bounds(1) [OF this] have "(2::rat) powi 53 \<le> ?q" using q e by simp
    then have "(of_int (2 ^ 53) :: rat) \<le> of_int n" by simp
    then have "2 ^ 53 \<le> n" by (simp only: of_int_le_iff)
    then show False using assms(2) by simp
  qed
  ultimately have t0: "?t \<le> 0" by (simp add: ulp_exp_def)
  have "?q / 2 powi ?t = ?q * 2 powi (- ?t)" by (simp add: power_int_minus field_simps)
  also have "(2::rat) powi (- ?t) = of_int (2 ^ nat (- ?t))" using t0 by (intro powi2_of_int) simp
  finally have m: "?q / 2 powi ?t = of_int (n * 2 ^ nat (- ?t))" by simp
  have "round_rat ?q = of_int (n * 2 ^ nat (- ?t)) * 2 powi ?t"
    using False unfolding round_rat_def m rhe_of_int by simp
  also have "\<dots> = ?q * (2 powi (- ?t) * 2 powi ?t)"
    using t0 powi2_of_int [of "- ?t"] by simp
  also have "(2::rat) powi (- ?t) * 2 powi ?t = 1" by (simp add: power_int_minus)
  finally show ?thesis by simp
qed

lemma float_of_int_small:
  assumes "0 \<le> n" and "n < 2 ^ 53"
  shows "float_of_int n = Finite (of_int n)"
proof -
  have "(of_int n :: rat) \<le> of_int (2 ^ 53)" using assms(2) by (simp only: of_int_le_iff)
  also have "(of_int (2 ^ 53) :: rat) \<le> max_double" by (simp add: max_double_def)
  finally have "(of_int n :: rat) \<le> max_double" .
  moreover have "- max_double \<le> (of_int n :: rat)"
    using assms(1) by (simp add: max_double_def)
  ultimately show ?thesis
    using round_rat_of_int [OF assms] by (simp add: float_of_int_def rnd_def Let_def)
qed

lemma round_rat_upper_simple:
  assumes "0 \<le> q" and "q \<le> B"
  shows "round_rat q \<le> q + (B + 1) * 2 powi (- 53)"
proof -
  define u where "u = (2::rat) powi (- 53)"
  define h where "h = (2::rat) powi (- 1075)"
  have 1: "h \<le> u" unfolding u_def h_def by (simp only: powi2_le_iff)
  have "0 \<le> u" unfolding u_def by simp
  then have 2: "q * u \<le> B * u" using assms(2) by (intro mult_right_mono)
  have 3: "round_rat q \<le> q + (q * u + h)"
    using round_rat_upper [OF assms(1)] unfolding u_def h_def .
  have "(B + 1) * u = B * u + u" by (simp add: algebra_simps)
  then have "round_rat q \<le> q + (B + 1) * u" using 1 2 3 by linarith
  then show ?thesis unfolding u_def .
qed

lemma CHAOS_R_Finite:
  "CHAOS_R = Finite (round_rat (399 / 100))"
  "0 \<le> round_rat (399 / 100)" "round_rat (399 / 100) \<le> 3991 / 1000"
proof -
  have a: "(0::rat) \<le> 399 / 100" "(399 / 100 :: rat) \<le> 2 powi 2" by simp_all
  show "CHAOS_R = Finite (round_rat (399 / 100))"
    unfolding CHAOS_R_def using rnd_Finite(1) [OF a _ pow2_le_max_double(2)] by simp
  show "0 \<le> round_rat (399 / 100)" using a(1) by (rule round_rat_nonneg)
  have "round_rat (399 / 100) \<le> 399 / 100 + (4 + 1) * 2 powi (- 53)"
    by (rule round_rat_upper_simple) simp_all
  also have "\<dots> \<le> 3991 / 1000" by (simp add: power_int_minus)
  finally show "round_rat (399 / 100) \<le> 3991 / 1000" .
qed

lemma logistic_arith:
  fixes q c t1 t2 u :: rat
  assumes q: "0 \<le> q" "q \<le> 1" and t1: "0 \<le> t1" "t1 \<le> 3991 / 1000 * q + 5 * u"
    and t2: "0 \<le> t2" "t2 \<le> (1 - q) + 2 * u" and u: "0 \<le> u" "u \<le> 1 / 1000000"
  shows "t1 * t2 \<le> 1"
proof -
  let ?a = "3991 / 1000 * q + 5 * u" and ?b = "(1 - q) + 2 * u"
  have "t1 * t2 \<le> ?a * ?b" using t1 t2 by (intro mult_mono) simp_all
  also have "?a * ?b = 3991 / 1000 * (q * (1 - q)) + 7982 / 1000 * (q * u) + 5 * (u * (1 - q)) + 10 * (u * u)"
    by (simp add: field_simps)
  also have "\<dots> \<le> 1"
  proof -
    have "0 \<le> (q - 1 / 2) * (q - 1 / 2)" by simp
    then have s1: "q * (1 - q) \<le> 1 / 4" by (simp add: algebra_simps)
    have s2: "q * u \<le> 1 * u" using q u by (intro mult_right_mono) simp_all
    have s3: "u * (1 - q) \<le> u * 1" using q u by (intro mult_left_mono) simp_all
    have s4: "u * u \<le> 1 * u" using u by (intro mult_right_mono) simp_all
    show ?thesis using s1 s2 s3 s4 u by simp
  qed
  finally show ?thesis .
qed

lemma logistic_map_in_unit:
  assumes "in_unit x"
  shows "in_unit (logistic_map x 1)"
proof -
  obtain q where x: "x = Finite q" and q: "0 \<le> q" "q \<le> 1"
    using assms by (auto simp: in_unit_def split: double.splits)
  let ?c = "round_rat (399 / 100)"
  let ?u = "(2::rat) powi (- 53)"
  have u: "0 \<le> ?u" "?u \<le> 1 / 1000000" by (simp_all add: power_int_minus)
  have one: "float_of_int 1 = Finite 1" using float_of_int_small [of 1] by simp
  have s0: "(0::rat) \<le> 1 - q" "1 - q \<le> 2 powi 0" using q by simp_all
  have sub: "fsub (float_of_int 1) x = Finite (round_rat (1 - q))"
    unfolding one x fsub_def using rnd_Finite(1) [OF s0 _ pow2_le_max_double(1)] by simp
  have t2: "0 \<le> round_rat (1 - q)" "round_rat (1 - q) \<le> (1 - q) + 2 * ?u"
  proof -
    show "0 \<le> round_rat (1 - q)" using s0(1) by (rule round_rat_nonneg)
    have "round_rat (1 - q) \<le> (1 - q) + (1 + 1) * ?u"
      using s0(1) by (rule round_rat_upper_simple) (use q in simp)
    then show "round_rat (1 - q) \<le> (1 - q) + 2 * ?u" by simp
  qed
  have cq: "0 \<le> ?c * q" "?c * q \<le> 3991 / 1000 * q"
  proof -
    show "0 \<le> ?c * q" using CHAOS_R_Finite(2) q(1) by (rule mult_nonneg_nonneg)
    show "?c * q \<le> 3991 / 1000 * q" using CHAOS_R_Finite(3) q(1) by (rule mult_right_mono)
  qed
  have cq4: "?c * q \<le> 2 powi 2"
  proof -
    have "3991 / 1000 * q \<le> 3991 / 1000 * 1" using q by (intro mult_left_mono) simp_all
    then show ?thesis using cq(2) by simp
  qed
  have mul1: "fmul CHAOS_R x = Finite (round_rat (?c * q))"
    unfolding CHAOS_R_Finite(1) x using rnd_Finite(1) [OF cq(1) cq4 _ pow2_le_max_double(2)] by simp
  have t1: "0 \<le> round_rat (?c * q)" "round_rat (?c * q) \<le> 3991 / 1000 * q + 5 * ?u"
  proof -
    show "0 \<le> round_rat (?c * q)" using cq(1) by (rule round_rat_nonneg)
    have "?c * q \<le> 4" using cq4 by simp
    with cq(1) have "round_rat (?c * q) \<le> ?c * q + (4 + 1) * ?u"
      by (rule round_rat_upper_simple)
    then show "round_rat (?c * q) \<le> 3991 / 1000 * q + 5 * ?u" using cq(2) by simp
  qed
  have p1: "round_rat (?c * q) * round_rat (1 - q) \<le> 1"
    using q t1 t2 u by (rule logistic_arith)
  have p0: "0 \<le> round_rat (?c * q) * round_rat (1 - q)" using t1(1) t2(1) by simp
  have p1': "round_rat (?c * q) * round_rat (1 - q) \<le> 2 powi 0" using p1 by simp
  note r = rnd_Finite [OF p0 p1' _ pow2_le_max_double(1)]
  have "logistic_map x 1 = Finite (round_rat (round_rat (?c * q) * round_rat (1 - q)))"
    using r(1) by (simp add: mul1 sub)
  then show ?thesis using r(2,3) by (simp add: in_unit_def)
qed

lemma logistic_map_1: "logistic_map x 1 = spec_logistic x"
proof -
  have "float_of_int 1 = Finite 1" using float_of_int_small [of 1] by simp
  then show ?thesis by (simp add: spec_logistic_def CHAOS_R_def)
qed

lemma spec_logistic_in_unit: "in_unit x \<Longrightarrow> in_unit (spec_logistic x)"
  using logistic_map_in_unit [of x] unfolding logistic_map_1 .

lemma funpow_in_unit: "in_unit x \<Longrightarrow> in_unit ((spec_logistic ^^ n) x)"
  by (induction n) (simp_all add: spec_logistic_in_unit)

lemma emit_in_unit:
  assumes "in_unit x"
  shows "\<exists>v. int_of_float (fmul x (float_of_int 255)) = Inr v \<and> of_int (v mod 256) = spec_emit x"
proof -
  obtain q where x: "x = Finite q" and q: "0 \<le> q" "q \<le> 1"
    using assms by (auto simp: in_unit_def split: double.splits)
  have f: "float_of_int 255 = Finite 255" using float_of_int_small [of 255] by simp
  have a: "0 \<le> q * 255" "q * 255 \<le> 2 powi 8" using q by simp_all
  note r = rnd_Finite [OF a _ pow2_le_max_double(3)]
  have m: "fmul x (Finite 255) = Finite (round_rat (q * 255))" using r(1) by (simp add: x)
  then have "int_of_float (fmul x (float_of_int 255)) = Inr \<lfloor>round_rat (q * 255)\<rfloor>"
    using r(2) by (simp add: f)
  moreover have "spec_emit x = of_int (\<lfloor>round_rat (q * 255)\<rfloor> mod 256)"
    by (simp add: spec_emit_def m)
  ultimately show ?thesis by simp
qed

lemma chaos_loop_spec:
  assumes "in_unit x" and "length sequence = n"
  shows "chaos_loop [k..<n] sequence x =
     Inr (take k sequence @ map (\<lambda>i. spec_emit ((spec_logistic ^^ (i - k + 1)) x)) [k..<n])"
  using assms
proof (induction "n - k" arbitrary: k sequence x)
  case 0
  then show ?case by simp
next
  case (Suc m)
  then have kn: "k < n" by simp
  let ?x = "spec_logistic x"
  have ux: "in_unit ?x" using Suc.prems(1) by (rule spec_logistic_in_unit)
  from emit_in_unit [OF ux] obtain v where
    v: "int_of_float (fmul ?x (float_of_int 255)) = Inr v" "of_int (v mod 256) = spec_emit ?x"
    by blast
  let ?s = "sequence[k := spec_emit ?x]"
  have step: "chaos_loop [k..<n] sequence x = chaos_loop [Suc k..<n] ?s ?x"
    unfolding upt_conv_Cons [OF kn] chaos_loop.simps logistic_map_1 v(1) using v(2) by simp
  have m: "m = n - Suc k" using Suc.hyps(2) by simp
  have ls: "length ?s = n" using Suc.prems(2) by simp
  have IH: "chaos_loop [Suc k..<n] ?s ?x =
     Inr (take (Suc k) ?s @ map (\<lambda>i. spec_emit ((spec_logistic ^^ (i - Suc k + 1)) ?x)) [Suc k..<n])"
    using Suc.hyps(1) [OF m ux ls] .
  have t: "take (Suc k) ?s = take k sequence @ [spec_emit ?x]"
    using kn Suc.prems(2) by (simp add: take_Suc_conv_app_nth)
  have mp: "map (\<lambda>i. spec_emit ((spec_logistic ^^ (i - Suc k + 1)) ?x)) [Suc k..<n]
          = map (\<lambda>i. spec_emit ((spec_logistic ^^ (i - k + 1)) x)) [Suc k..<n]"
  proof (rule map_cong [OF refl])
    fix i assume "i \<in> set [Suc k..<n]"
    then have "i - k + 1 = Suc (i - Suc k + 1)" by auto
    then show "spec_emit ((spec_logistic ^^ (i - Suc k + 1)) ?x) = spec_emit ((spec_logistic ^^ (i - k + 1)) x)"
      by (simp only: funpow_Suc_right o_apply)
  qed
  have "[k..<n] = k # [Suc k..<n]" using kn by (rule upt_conv_Cons)
  then have "map (\<lambda>i. spec_emit ((spec_logistic ^^ (i - k + 1)) x)) [k..<n]
      = spec_emit ?x # map (\<lambda>i. spec_emit ((spec_logistic ^^ (i - k + 1)) x)) [Suc k..<n]"
    by simp
  then show ?case unfolding step IH t mp by simp
qed

lemma round_rat_tenth: "round_rat (1 / 10) = 7205759403792794 / 72057594037927936"
proof -
  have "ilog2 (1 / 10) = - 4" by (rule ilog2_unique) (simp_all add: power_int_minus)
  then have u: "ulp_exp (1 / 10) = - 56" by (simp add: ulp_exp_def)
  have p: "(2::rat) powi (- 56) = 1 / 72057594037927936" by (simp add: power_int_minus)
  have f: "\<lfloor>(36028797018963968 / 5 :: rat)\<rfloor> = 7205759403792793" by (rule floor_unique) simp_all
  have "round_half_even (36028797018963968 / 5) = 7205759403792794"
    unfolding round_half_even_def Let_def f by simp
  then show ?thesis unfolding round_rat_def u p by simp
qed

lemma round_rat_tenth_idem:
  "round_rat (7205759403792794 / 72057594037927936) = 7205759403792794 / 72057594037927936"
proof -
  have "ilog2 (7205759403792794 / 72057594037927936) = - 4"
    by (rule ilog2_unique) (simp_all add: power_int_minus)
  then have u: "ulp_exp (7205759403792794 / 72057594037927936) = - 56" by (simp add: ulp_exp_def)
  have p: "(2::rat) powi (- 56) = 1 / 72057594037927936" by (simp add: power_int_minus)
  have "round_half_even (of_int 7205759403792794) = 7205759403792794" by (rule rhe_of_int)
  then have "round_half_even 7205759403792794 = 7205759403792794" by simp
  then show ?thesis unfolding round_rat_def u p by simp
qed


lemma rnd_tenth: "rnd (1 / 10) = Finite (7205759403792794 / 72057594037927936)"
  by (simp add: rnd_def round_rat_tenth max_double_def Let_def)


lemma round_rat_unit:
  assumes "0 \<le> q" and "q \<le> 1"
  shows "rnd q = Finite (round_rat q)" and "0 \<le> round_rat q" and "round_rat q \<le> 1"
    and "round_rat q \<le> q + 2 / 9007199254740992"
proof -
  have q1: "q \<le> 2 powi 0" using assms(2) by simp
  note r = rnd_Finite [OF assms(1) q1 _ pow2_le_max_double(1)]
  show "rnd q = Finite (round_rat q)" using r(1) by simp
  show "0 \<le> round_rat q" using r(2) by simp
  show "round_rat q \<le> 1" using r(3) by simp
  have "round_rat q \<le> q + (1 + 1) * 2 powi (- 53)"
    using assms by (rule round_rat_upper_simple)
  then show "round_rat q \<le> q + 2 / 9007199254740992" by (simp add: power_int_minus)
qed

lemma seed_bounds:
  fixes k :: nat
  assumes "k < 1000000"
  shows "\<exists>s. fadd (rnd (1 / 10))
              (fmul (fdiv (float_of_int (int k)) (Finite 1000000)) (rnd (4 / 5))) = Finite s
           \<and> 7205759403792794 / 72057594037927936 \<le> s
           \<and> s < 8106479329266893 / 9007199254740992"
proof -
  let ?u = "2 / 9007199254740992 :: rat"
  let ?c1 = "7205759403792794 / 72057594037927936 :: rat"
  have fk: "float_of_int (int k) = Finite (of_nat k)"
    using float_of_int_small [of "int k"] assms by simp
  let ?q = "of_nat k / 1000000 :: rat"
  have q: "0 \<le> ?q" "?q \<le> 999999 / 1000000"
  proof -
    show "0 \<le> ?q" by simp
    have "k \<le> 999999" using assms by simp
    then have "(of_nat k :: rat) \<le> of_nat 999999" by (simp only: of_nat_le_iff)
    then show "?q \<le> 999999 / 1000000" by simp
  qed
  have q1: "?q \<le> 1" using q(2) by simp
  note d = round_rat_unit [OF q(1) q1]
  let ?d = "round_rat ?q"
  have dv: "fdiv (float_of_int (int k)) (Finite 1000000) = Finite ?d"
    using d(1) by (simp add: fk)
  have du: "?d \<le> 999999 / 1000000 + ?u" using d(4) q(2) by linarith
  have c80: "(0::rat) \<le> 4 / 5" "(4 / 5 :: rat) \<le> 1" by simp_all
  note c8 = round_rat_unit [OF c80]
  let ?c8 = "round_rat (4 / 5)"
  have m: "0 \<le> ?d * ?c8" using d(2) c8(2) by (rule mult_nonneg_nonneg)
  have mu: "?d * ?c8 \<le> (999999 / 1000000 + ?u) * (4 / 5 + ?u)"
    using du c8(4) d(2) c8(2) by (intro mult_mono) simp_all
  have m1: "?d * ?c8 \<le> 1" using mu by simp
  note p = round_rat_unit [OF m m1]
  let ?p = "round_rat (?d * ?c8)"
  have mulv: "fmul (Finite ?d) (rnd (4 / 5)) = Finite ?p" using c8(1) p(1) by simp
  have pu: "?p \<le> (999999 / 1000000 + ?u) * (4 / 5 + ?u) + ?u" using p(4) mu by linarith
  have a0: "0 \<le> ?c1 + ?p" using p(2) by simp
  have a1: "?c1 + ?p \<le> 1" using pu by simp
  note s = round_rat_unit [OF a0 a1]
  let ?s = "round_rat (?c1 + ?p)"
  have "fadd (rnd (1 / 10)) (fmul (fdiv (float_of_int (int k)) (Finite 1000000)) (rnd (4 / 5)))
      = Finite ?s"
    using s(1) by (simp add: dv mulv rnd_tenth)
  moreover have "?c1 \<le> ?s"
  proof -
    have "round_rat ?c1 \<le> ?s" using p(2) by (intro round_rat_mono) simp_all
    then show ?thesis by (simp only: round_rat_tenth_idem)
  qed
  moreover have "?s < 8106479329266893 / 9007199254740992"
    using s(4) pu by simp
  ultimately show ?thesis by blast
qed
section \<open>Properties of the cipher\<close>

lemma diffusion_forward:
  assumes "length a = n" and "1 \<le> k"
  shows "length (diffusion_loop [k..<n] a) = n
       \<and> (\<forall>j<k. diffusion_loop [k..<n] a ! j = a ! j)
       \<and> (\<forall>j. k \<le> j \<and> j < n \<longrightarrow>
            diffusion_loop [k..<n] a ! j = a ! j XOR diffusion_loop [k..<n] a ! (j - 1))"
  using assms
proof (induction "n - k" arbitrary: k a)
  case 0
  then have "n \<le> k" by simp
  then show ?case using 0 by auto
next
  case (Suc m)
  then have kn: "k < n" by simp
  let ?a = "a[k := a ! k XOR a ! (k - 1)]"
  let ?r = "diffusion_loop [Suc k..<n] ?a"
  have step: "diffusion_loop [k..<n] a = ?r"
    using kn by (simp add: upt_conv_Cons)
  have m: "m = n - Suc k" using Suc.hyps(2) by simp
  have la: "length ?a = n" using Suc.prems(1) by simp
  have IH: "length ?r = n"
       "\<And>j. j < Suc k \<Longrightarrow> ?r ! j = ?a ! j"
       "\<And>j. Suc k \<le> j \<Longrightarrow> j < n \<Longrightarrow> ?r ! j = ?a ! j XOR ?r ! (j - 1)"
    using Suc.hyps(1) [OF m la] by auto
  have a1: "?r ! j = a ! j" if "j < k" for j
    using IH(2) [of j] that by simp
  have a2: "?r ! j = a ! j XOR ?r ! (j - 1)" if "k \<le> j" "j < n" for j
  proof (cases "j = k")
    case True
    have "?r ! k = ?a ! k" using IH(2) [of k] by simp
    then have e1: "?r ! k = a ! k XOR a ! (k - 1)" using kn Suc.prems(1) by simp
    have e2: "?r ! (k - 1) = a ! (k - 1)" using a1 [of "k - 1"] Suc.prems(2) by simp
    show ?thesis unfolding True e1 e2 ..
  next
    case False
    then have "Suc k \<le> j" using that by simp
    then show ?thesis using IH(3) [of j] that by simp
  qed
  show ?case unfolding step using IH(1) a1 a2 by blast
qed

lemma diffusion_backward:
  assumes "k \<le> length e"
  shows "length (diffusion_loop (rev [1..<k]) e) = length e
       \<and> (\<forall>j. 1 \<le> j \<and> j < k \<longrightarrow> diffusion_loop (rev [1..<k]) e ! j = e ! j XOR e ! (j - 1))
       \<and> (\<forall>j. j = 0 \<or> k \<le> j \<longrightarrow> diffusion_loop (rev [1..<k]) e ! j = e ! j)"
  using assms
proof (induction k arbitrary: e)
  case 0
  then show ?case by simp
next
  case (Suc k)
  show ?case
  proof (cases "k = 0")
    case True
    then show ?thesis by simp
  next
    case False
    then have k1: "1 \<le> k" by simp
    let ?e = "e[k := e ! k XOR e ! (k - 1)]"
    let ?r = "diffusion_loop (rev [1..<k]) ?e"
    have step: "diffusion_loop (rev [1..<Suc k]) e = ?r" using k1 by simp
    have le: "k \<le> length ?e" using Suc.prems by simp
    have IH: "length ?r = length e"
      "\<And>j. 1 \<le> j \<Longrightarrow> j < k \<Longrightarrow> ?r ! j = ?e ! j XOR ?e ! (j - 1)"
      "\<And>j. j = 0 \<or> k \<le> j \<Longrightarrow> ?r ! j = ?e ! j"
      using Suc.IH [OF le] by auto
    have b1: "?r ! j = e ! j XOR e ! (j - 1)" if "1 \<le> j" "j < Suc k" for j
    proof (cases "j = k")
      case True
      then show ?thesis using IH(3) [of k] Suc.prems by simp
    next
      case False
      then have "j < k" using that by simp
      then show ?thesis using IH(2) [of j] that by simp
    qed
    have b2: "?r ! j = e ! j" if "j = 0 \<or> Suc k \<le> j" for j
      using IH(3) [of j] that k1 by auto
    show ?thesis unfolding step using IH(1) b1 b2 by blast
  qed
qed

lemma chaos_loop_length:
  "chaos_loop is sequence x = Inr S \<Longrightarrow> length S = length sequence"
  by (induction "is" sequence x rule: chaos_loop.induct) (auto split: sum.splits)

lemma generate_chaos_sequence_length:
  "generate_chaos_sequence self n = Inr S \<Longrightarrow> length S = n"
  unfolding generate_chaos_sequence_def by (drule chaos_loop_length) simp

lemma diffusion_inverse:
  "diffusion_loop (rev [1..<length a]) (diffusion_loop [1..<length a] a) = a"
proof -
  let ?n = "length a"
  let ?r = "diffusion_loop [1..<?n] a"
  let ?d = "diffusion_loop (rev [1..<?n]) ?r"
  have f: "length ?r = ?n" "\<And>j. j < 1 \<Longrightarrow> ?r ! j = a ! j"
    "\<And>j. 1 \<le> j \<Longrightarrow> j < ?n \<Longrightarrow> ?r ! j = a ! j XOR ?r ! (j - 1)"
    using diffusion_forward [of a ?n 1] by auto
  have b: "length ?d = ?n"
    "\<And>j. 1 \<le> j \<Longrightarrow> j < ?n \<Longrightarrow> ?d ! j = ?r ! j XOR ?r ! (j - 1)"
    "?d ! 0 = ?r ! 0"
    using diffusion_backward [of ?n ?r] f(1) by auto
  show ?thesis
  proof (rule nth_equalityI)
    show "length ?d = length a" using b(1) .
  next
    fix j assume "j < length ?d"
    then have j: "j < ?n" using b(1) by simp
    show "?d ! j = a ! j"
    proof (cases "j = 0")
      case True
      then show ?thesis using b(3) f(2) [of 0] by simp
    next
      case False
      then have j1: "1 \<le> j" by simp
      have "?d ! j = (a ! j XOR ?r ! (j - 1)) XOR ?r ! (j - 1)"
        using b(2) [OF j1 j] f(3) [OF j1 j] by simp
      then show ?thesis by (simp add: xor.assoc)
    qed
  qed
qed

lemma map2_xor_cancel:
  fixes xs :: "u8 list"
  assumes "length xs = length S"
  shows "map2 (XOR) (map2 (XOR) xs S) S = xs"
  using assms
  by (induction xs S rule: list_induct2) (simp_all add: xor.assoc)

lemma encrypt_pixels_given:
  assumes "valid_array X" and "generate_chaos_sequence self (length (elems X)) = Inr S"
  shows "encrypt_pixels self X =
     Inr \<lparr>shape = shape X,
          elems = diffusion_loop [1..<length (elems X)] (map2 (XOR) (elems X) S)\<rparr>"
proof -
  have l: "length S = length (elems X)"
    using assms(2) by (rule generate_chaos_sequence_length)
  have "length (diffusion_loop [1..<length (elems X)] (map2 (XOR) (elems X) S)) = length (elems X)"
    using diffusion_forward [of "map2 (XOR) (elems X) S" "length (elems X)" 1] l by simp
  then show ?thesis using assms l
    by (simp add: encrypt_pixels_def flatten_def bitwise_xor_def reshape_def valid_array_def)
qed

lemma decrypt_pixels_given:
  assumes "valid_array Y" and "generate_chaos_sequence self (length (elems Y)) = Inr S"
  shows "decrypt_pixels self Y =
     Inr \<lparr>shape = shape Y,
          elems = map2 (XOR) (diffusion_loop (rev [1..<length (elems Y)]) (elems Y)) S\<rparr>"
proof -
  have l: "length S = length (elems Y)"
    using assms(2) by (rule generate_chaos_sequence_length)
  have "length (diffusion_loop (rev [1..<length (elems Y)]) (elems Y)) = length (elems Y)"
    using diffusion_backward [of "length (elems Y)" "elems Y"] by simp
  then show ?thesis using assms l
    by (simp add: decrypt_pixels_def flatten_def bitwise_xor_def reshape_def valid_array_def Let_def)
qed

lemma encrypt_decrypt_given:
  assumes v: "valid_array X" and g: "generate_chaos_sequence self (length (elems X)) = Inr S"
  shows "\<exists>Y. encrypt_pixels self X = Inr Y \<and> shape Y = shape X \<and> decrypt_pixels self Y = Inr X"
proof -
  let ?n = "length (elems X)"
  let ?i = "map2 (XOR) (elems X) S"
  let ?Y = "\<lparr>shape = shape X, elems = diffusion_loop [1..<?n] ?i\<rparr>"
  have l: "length S = ?n" using g by (rule generate_chaos_sequence_length)
  then have li: "length ?i = ?n" by simp
  have lY: "length (elems ?Y) = ?n"
    using diffusion_forward [of ?i ?n 1] li by simp
  have vY: "valid_array ?Y" using v lY by (simp add: valid_array_def)
  have gY: "generate_chaos_sequence self (length (elems ?Y)) = Inr S" using g lY by simp
  have inv: "diffusion_loop (rev [1..<?n]) (diffusion_loop [1..<?n] ?i) = ?i"
    using diffusion_inverse [of ?i] li by simp
  have "decrypt_pixels self ?Y = Inr \<lparr>shape = shape X, elems = map2 (XOR) ?i S\<rparr>"
    using decrypt_pixels_given [OF vY gY] lY inv by simp
  also have "map2 (XOR) ?i S = elems X" using map2_xor_cancel [of "elems X" S] l by simp
  finally have "decrypt_pixels self ?Y = Inr X" by simp
  then show ?thesis using encrypt_pixels_given [OF v g] by simp
qed
section \<open>Properties of key derivation and of the keystream\<close>

lemma chaos_seed_expr:
  "chaos_seed (DCKPESEncryptor sha fname iso_ts) =
     fadd (rnd (1 / 10))
       (fmul (fdiv (float_of_int (int (from_bytes_big (pyslice (sha (encode (fname @ ''|'' @ iso_ts))) 16 24)
                 mod 1000000))) (Finite 1000000)) (rnd (4 / 5)))"
  by (simp add: DCKPESEncryptor_def generate_keys_def Let_def)

lemma chaos_seed_bounds:
  "\<exists>s. chaos_seed (DCKPESEncryptor sha fname iso_ts) = Finite s
        \<and> 7205759403792794 / 72057594037927936 \<le> s
        \<and> s < 8106479329266893 / 9007199254740992"
  unfolding chaos_seed_expr by (rule seed_bounds) simp

lemma chaos_seed_in_unit: "in_unit (chaos_seed (DCKPESEncryptor sha fname iso_ts))"
proof -
  obtain s where s: "chaos_seed (DCKPESEncryptor sha fname iso_ts) = Finite s"
    "7205759403792794 / 72057594037927936 \<le> s" "s < 8106479329266893 / 9007199254740992"
    using chaos_seed_bounds by blast
  have "0 \<le> s" "s \<le> 1" using s(2,3) by simp_all
  then show ?thesis by (simp add: s(1) in_unit_def)
qed

lemma generate_chaos_sequence_spec:
  assumes "in_unit (chaos_seed self)"
  shows "generate_chaos_sequence self n = Inr (spec_keystream (chaos_seed self) n)"
proof -
  have f: "(\<lambda>x. logistic_map x 1) = spec_logistic" by (rule ext) (rule logistic_map_1)
  let ?x = "(spec_logistic ^^ 100) (chaos_seed self)"
  have u: "in_unit ?x" using assms by (rule funpow_in_unit)
  have "generate_chaos_sequence self n = chaos_loop [0..<n] (replicate n 0) ?x"
    unfolding generate_chaos_sequence_def f ..
  also have "\<dots> = Inr (take 0 (replicate n 0)
        @ map (\<lambda>i. spec_emit ((spec_logistic ^^ (i - 0 + 1)) ?x)) [0..<n])"
    using u by (rule chaos_loop_spec) simp
  also have "map (\<lambda>i. spec_emit ((spec_logistic ^^ (i - 0 + 1)) ?x)) [0..<n]
      = spec_keystream (chaos_seed self) n"
    unfolding spec_keystream_def
  proof (rule map_cong [OF refl])
    fix i
    have "(spec_logistic ^^ (i - 0 + 1)) ?x = (spec_logistic ^^ ((i - 0 + 1) + 100)) (chaos_seed self)"
      by (simp only: funpow_add o_apply)
    moreover have "(i - 0 + 1) + 100 = 100 + i + 1" by simp
    ultimately show "spec_emit ((spec_logistic ^^ (i - 0 + 1)) ?x)
        = spec_emit ((spec_logistic ^^ (100 + i + 1)) (chaos_seed self))" by simp
  qed
  finally show ?thesis by simp
qed

lemma fmul_commute: "fmul x y = fmul y x"
  by (cases x; cases y) (simp_all add: mult.commute)
section \<open>The cipher and the keystream: claims\<close>

text \<open>
  Claim C6. For the encryptor of any file name and timestamp, the keystream generator
  returns, for every requested length \<open>n\<close>, exactly the \<open>n\<close> bytes of the specification's
  sequence: from the chaos seed the logistic map \<open>x' = 3.99 * x * (1 - x)\<close> is iterated,
  the first 100 iterates are discarded, and byte \<open>i\<close> is \<open>floor (x * 255) mod 256\<close> of
  iterate \<open>100 + i + 1\<close>. The result is a function of the seed and the length alone.
\<close>

theorem keystream_follows_spec:
  "generate_chaos_sequence (DCKPESEncryptor sha fname iso_ts) n
     = Inr (spec_keystream (chaos_seed (DCKPESEncryptor sha fname iso_ts)) n)
   \<and> length (spec_keystream (chaos_seed (DCKPESEncryptor sha fname iso_ts)) n) = n"
  using generate_chaos_sequence_spec [OF chaos_seed_in_unit]
  by (simp add: spec_keystream_def)

text \<open>
  Claim C1. For every well-formed byte array \<open>X\<close> of any shape: whenever the keystream
  generator returns a keystream \<open>S\<close> for the length of \<open>X\<close>, \<open>encrypt_pixels\<close> returns
  an array of the shape of \<open>X\<close> that \<open>decrypt_pixels\<close>, regenerating \<open>S\<close> from the same
  seed, turns back into \<open>X\<close>; and for the encryptor of any file name and timestamp the
  generator does return, so both calls succeed.
\<close>

theorem encrypt_decrypt_roundtrip:
  assumes "valid_array X"
  shows "(\<forall>self S. generate_chaos_sequence self (length (flatten X)) = Inr S \<longrightarrow>
            (\<exists>Y. encrypt_pixels self X = Inr Y \<and> shape Y = shape X
               \<and> decrypt_pixels self Y = Inr X))
       \<and> (\<exists>Y. encrypt_pixels (DCKPESEncryptor sha fname iso_ts) X = Inr Y
               \<and> shape Y = shape X
               \<and> decrypt_pixels (DCKPESEncryptor sha fname iso_ts) Y = Inr X)"
proof
  show "\<forall>self S. generate_chaos_sequence self (length (flatten X)) = Inr S \<longrightarrow>
            (\<exists>Y. encrypt_pixels self X = Inr Y \<and> shape Y = shape X
               \<and> decrypt_pixels self Y = Inr X)"
    using encrypt_decrypt_given [OF assms] by (simp add: flatten_def)
next
  let ?self = "DCKPESEncryptor sha fname iso_ts"
  have "generate_chaos_sequence ?self (length (elems X))
      = Inr (spec_keystream (chaos_seed ?self) (length (elems X)))"
    using chaos_seed_in_unit by (rule generate_chaos_sequence_spec)
  then show "\<exists>Y. encrypt_pixels ?self X = Inr Y \<and> shape Y = shape X
      \<and> decrypt_pixels ?self Y = Inr X"
    by (rule encrypt_decrypt_given [OF assms])
qed

text \<open>
  Claim C7. For every well-formed input buffer, \<open>encrypt_pixels\<close> computes the two passes:
  the intermediate buffer is the input XORed byte by byte with the keystream of the same
  length, and the output has \<open>out[0] = intermediate[0]\<close> and
  \<open>out[i] = intermediate[i] XOR out[i-1]\<close> for every \<open>i \<ge> 1\<close>, in the shape of the input.
\<close>

theorem encrypt_two_passes:
  assumes "valid_array X"
    and "self = DCKPESEncryptor sha fname iso_ts"
    and "n = length (flatten X)"
    and "intermediate = map2 (XOR) (flatten X) (spec_keystream (chaos_seed self) n)"
  shows "\<exists>Y. encrypt_pixels self X = Inr Y
           \<and> shape Y = shape X
           \<and> length (flatten Y) = n
           \<and> length intermediate = n
           \<and> (\<forall>i<n. intermediate ! i = flatten X ! i XOR spec_keystream (chaos_seed self) n ! i)
           \<and> (0 < n \<longrightarrow> flatten Y ! 0 = intermediate ! 0)
           \<and> (\<forall>i. 1 \<le> i \<and> i < n \<longrightarrow> flatten Y ! i = intermediate ! i XOR flatten Y ! (i - 1))"
proof -
  let ?S = "spec_keystream (chaos_seed self) n"
  have lS: "length ?S = n" by (simp add: spec_keystream_def)
  have g: "generate_chaos_sequence self (length (elems X)) = Inr ?S"
    using generate_chaos_sequence_spec [OF chaos_seed_in_unit, of sha fname iso_ts n] assms(2,3)
    by (simp add: flatten_def)
  have li: "length intermediate = n" using assms(3,4) lS by simp
  let ?out = "diffusion_loop [1..<n] intermediate"
  have enc: "encrypt_pixels self X = Inr \<lparr>shape = shape X, elems = ?out\<rparr>"
    using encrypt_pixels_given [OF assms(1) g] assms(3,4) by (simp add: flatten_def)
  have d: "length ?out = n" "\<And>j. j < 1 \<Longrightarrow> ?out ! j = intermediate ! j"
    "\<And>j. 1 \<le> j \<Longrightarrow> j < n \<Longrightarrow> ?out ! j = intermediate ! j XOR ?out ! (j - 1)"
    using diffusion_forward [OF li, of 1] by auto
  have x: "\<forall>i<n. intermediate ! i = flatten X ! i XOR ?S ! i"
    using assms(3,4) lS by simp
  show ?thesis using enc d li x by (simp add: flatten_def)
qed

theorem keystream_follows_spec_witness:
  "generate_chaos_sequence (DCKPESEncryptor example_sha ''doc.pdf'' ''2024-01-01T00:00:00.208738'') 3
     = Inr (spec_keystream
         (chaos_seed (DCKPESEncryptor example_sha ''doc.pdf'' ''2024-01-01T00:00:00.208738'')) 3)"
  using keystream_follows_spec [of example_sha "''doc.pdf''" "''2024-01-01T00:00:00.208738''" 3]
  by simp

theorem encrypt_decrypt_roundtrip_witness:
  "valid_array example_image \<and>
   (\<exists>Y. encrypt_pixels (DCKPESEncryptor example_sha ''doc.pdf'' ''2024-01-01T00:00:00.208738'')
          example_image = Inr Y
      \<and> shape Y = [2, 2]
      \<and> decrypt_pixels (DCKPESEncryptor example_sha ''doc.pdf'' ''2024-01-01T00:00:00.208738'') Y
          = Inr example_image)"
proof -
  have v: "valid_array example_image" by (simp add: valid_array_def example_image_def)
  have s: "shape example_image = [2, 2]" by (simp add: example_image_def)
  from encrypt_decrypt_roundtrip [OF v, of example_sha "''doc.pdf''" "''2024-01-01T00:00:00.208738''"]
  show ?thesis using v s by simp
qed

theorem encrypt_two_passes_witness:
  "valid_array example_image \<and>
   (\<exists>Y. encrypt_pixels (DCKPESEncryptor example_sha ''doc.pdf'' ''2024-01-01T00:00:00.208738'')
          example_image = Inr Y
      \<and> shape Y = [2, 2] \<and> length (flatten Y) = 4
      \<and> flatten Y ! 1 =
          (2 XOR spec_keystream
             (chaos_seed (DCKPESEncryptor example_sha ''doc.pdf'' ''2024-01-01T00:00:00.208738'')) 4 ! 1)
          XOR flatten Y ! 0)"
proof -
  let ?self = "DCKPESEncryptor example_sha ''doc.pdf'' ''2024-01-01T00:00:00.208738''"
  let ?S = "spec_keystream (chaos_seed ?self) 4"
  have v: "valid_array example_image" by (simp add: valid_array_def example_image_def)
  have n: "4 = length (flatten example_image)" by (simp add: flatten_def example_image_def)
  from encrypt_two_passes [OF v refl n refl, of example_sha "''doc.pdf''" "''2024-01-01T00:00:00.208738''"]
  obtain Y where Y: "encrypt_pixels ?self example_image = Inr Y" "shape Y = shape example_image"
    "length (flatten Y) = 4"
    "\<forall>i<4. map2 (XOR) (flatten example_image) ?S ! i = flatten example_image ! i XOR ?S ! i"
    "\<forall>i. 1 \<le> i \<and> i < 4 \<longrightarrow>
       flatten Y ! i = map2 (XOR) (flatten example_image) ?S ! i XOR flatten Y ! (i - 1)"
    by blast
  have "flatten Y ! 1 = map2 (XOR) (flatten example_image) ?S ! 1 XOR flatten Y ! 0"
    using Y(5) by (metis One_nat_def diff_self_eq_0 le_refl one_less_numeral_iff semiring_norm(76))
  moreover have "map2 (XOR) (flatten example_image) ?S ! 1 = flatten example_image ! 1 XOR ?S ! 1"
    using Y(4) by simp
  moreover have "flatten example_image ! 1 = 2" by (simp add: flatten_def example_image_def)
  ultimately have "flatten Y ! 1 = (2 XOR ?S ! 1) XOR flatten Y ! 0" by simp
  then show ?thesis using v Y(1,2,3) by (auto simp: example_image_def)
qed
section \<open>Key derivation: claims\<close>

lemma from_bytes_big_snoc: "from_bytes_big (bs @ [b]) = from_bytes_big bs * 256 + unat b"
  by (simp add: from_bytes_big_def)

lemma from_bytes_big_bound: "from_bytes_big bs < 256 ^ length bs"
proof (induction bs rule: rev_induct)
  case Nil
  then show ?case by (simp add: from_bytes_big_def)
next
  case (snoc b bs)
  have "unat b < 256" using unsigned_less [of b] by simp
  moreover have "from_bytes_big bs + 1 \<le> 256 ^ length bs" using snoc by simp
  then have "(from_bytes_big bs + 1) * 256 \<le> 256 ^ length bs * 256" by (rule mult_le_mono1)
  ultimately show ?case by (simp add: from_bytes_big_snoc)
qed

text \<open>
  Claim C5. For every file name and timestamp string, the key, the chaos seed and the
  shuffle seed base of the encryptor are the values of the specification's derivation:
  the first 16 bytes of the SHA-256 of \<open>filename|timestamp\<close>, the float
  \<open>0.1 + 0.8 * ((seedInt mod 1000000) / 1000000)\<close> with \<open>seedInt\<close> the big-endian value
  of bytes 16 to 23, and the big-endian value of the first four key bytes, which is below
  \<open>2 ^ 32\<close>. The three are functions of the two strings, so equal inputs give equal
  key material.
\<close>

theorem key_material_follows_spec:
  "(key (DCKPESEncryptor sha fname iso_ts),
    chaos_seed (DCKPESEncryptor sha fname iso_ts),
    get_shuffle_seed (DCKPESEncryptor sha fname iso_ts)) = spec_key_material sha fname iso_ts
   \<and> length (key (DCKPESEncryptor sha fname iso_ts)) \<le> 16
   \<and> get_shuffle_seed (DCKPESEncryptor sha fname iso_ts) < 2 ^ 32"
proof -
  have m: "float_of_int 1000000 = Finite 1000000" using float_of_int_small [of 1000000] by simp
  have 1: "(key (DCKPESEncryptor sha fname iso_ts),
    chaos_seed (DCKPESEncryptor sha fname iso_ts),
    get_shuffle_seed (DCKPESEncryptor sha fname iso_ts)) = spec_key_material sha fname iso_ts"
    by (simp add: DCKPESEncryptor_def generate_keys_def spec_key_material_def get_shuffle_seed_def
        pyslice_def Let_def m fmul_commute)
  have 2: "length (key (DCKPESEncryptor sha fname iso_ts)) \<le> 16"
    by (simp add: DCKPESEncryptor_def generate_keys_def pyslice_def Let_def)
  have "get_shuffle_seed (DCKPESEncryptor sha fname iso_ts)
      < 256 ^ length (pyslice (key (DCKPESEncryptor sha fname iso_ts)) 0 4)"
    unfolding get_shuffle_seed_def by (rule from_bytes_big_bound)
  also have "\<dots> \<le> (256::nat) ^ 4" by (intro power_increasing) (simp_all add: pyslice_def)
  finally have 3: "get_shuffle_seed (DCKPESEncryptor sha fname iso_ts) < 2 ^ 32" by simp
  show ?thesis using 1 2 3 by simp
qed





theorem key_material_follows_spec_witness:
  "key (DCKPESEncryptor example_sha ''doc.pdf'' ''2024-01-01T00:00:00.208738'')
     = fst (spec_key_material example_sha ''doc.pdf'' ''2024-01-01T00:00:00.208738'')
   \<and> get_shuffle_seed (DCKPESEncryptor example_sha ''doc.pdf'' ''2024-01-01T00:00:00.208738'') < 2 ^ 32"
  using key_material_follows_spec [of example_sha "''doc.pdf''" "''2024-01-01T00:00:00.208738''"]
  by (metis fst_conv)
section \<open>Properties of the package format\<close>

lemma occurs_at_0: "occurs_at needle xs 0 \<longleftrightarrow> take (length needle) xs = needle"
proof
  assume "occurs_at needle xs 0"
  then show "take (length needle) xs = needle" by (simp add: occurs_at_def)
next
  assume a: "take (length needle) xs = needle"
  then have "length (take (length needle) xs) = length needle" by simp
  then have "length needle \<le> length xs" by simp
  then show "occurs_at needle xs 0" using a by (simp add: occurs_at_def)
qed

lemma occurs_at_Suc: "occurs_at needle (x # xs) (Suc i) \<longleftrightarrow> occurs_at needle xs i"
  by (simp add: occurs_at_def)

lemma find_bytes_Some:
  "find_bytes needle xs = Some p \<Longrightarrow> occurs_at needle xs p \<and> (\<forall>i<p. \<not> occurs_at needle xs i)"
proof (induction xs arbitrary: p)
  case Nil
  then show ?case by (simp add: occurs_at_def split: if_splits)
next
  case (Cons x xs)
  show ?case
  proof (cases "take (length needle) (x # xs) = needle")
    case True
    then have "p = 0" using Cons.prems by simp
    then show ?thesis using True occurs_at_0 [of needle "x # xs"] by simp
  next
    case False
    then obtain q where q: "find_bytes needle xs = Some q" "p = Suc q"
      using Cons.prems by auto
    from Cons.IH [OF q(1)] have IH: "occurs_at needle xs q" "\<forall>i<q. \<not> occurs_at needle xs i"
      by auto
    have n0: "\<not> occurs_at needle (x # xs) 0" using False occurs_at_0 [of needle "x # xs"] by simp
    have "\<not> occurs_at needle (x # xs) i" if "i < Suc q" for i
    proof (cases i)
      case 0
      then show ?thesis using n0 by simp
    next
      case (Suc j)
      then show ?thesis using that IH(2) by (simp add: occurs_at_Suc)
    qed
    then show ?thesis using IH(1) q(2) by (simp add: occurs_at_Suc)
  qed
qed

lemma find_bytes_None:
  "find_bytes needle xs = None \<longleftrightarrow> (\<forall>i. \<not> occurs_at needle xs i)"
proof (induction xs)
  case Nil
  show ?case by (auto simp: occurs_at_def)
next
  case (Cons x xs)
  show ?case
  proof (cases "take (length needle) (x # xs) = needle")
    case True
    then have "occurs_at needle (x # xs) 0" using occurs_at_0 [of needle "x # xs"] by simp
    then show ?thesis using True by auto
  next
    case False
    then have n0: "\<not> occurs_at needle (x # xs) 0" using occurs_at_0 [of needle "x # xs"] by simp
    have "(\<forall>i. \<not> occurs_at needle (x # xs) i) \<longleftrightarrow> (\<forall>i. \<not> occurs_at needle xs i)"
    proof
      assume a: "\<forall>i. \<not> occurs_at needle (x # xs) i"
      show "\<forall>i. \<not> occurs_at needle xs i"
      proof
        fix i show "\<not> occurs_at needle xs i" using a occurs_at_Suc [of needle x xs i] by blast
      qed
    next
      assume a: "\<forall>i. \<not> occurs_at needle xs i"
      show "\<forall>i. \<not> occurs_at needle (x # xs) i"
      proof
        fix i show "\<not> occurs_at needle (x # xs) i"
          using a n0 occurs_at_Suc [of needle x xs] by (cases i) auto
      qed
    qed
    then show ?thesis using False Cons.IH by simp
  qed
qed

lemma find_bytes_first:
  assumes "occurs_at needle xs p" and "\<forall>i<p. \<not> occurs_at needle xs i"
  shows "find_bytes needle xs = Some p"
proof (cases "find_bytes needle xs")
  case None
  then show ?thesis using assms(1) find_bytes_None [of needle xs] by simp
next
  case (Some q)
  from find_bytes_Some [OF Some] have q: "occurs_at needle xs q" "\<forall>i<q. \<not> occurs_at needle xs i"
    by auto
  have "\<not> q < p" using q(1) assms(2) by blast
  moreover have "\<not> p < q" using assms(1) q(2) by blast
  ultimately show ?thesis using Some by simp
qed

lemma extract_pages_Inl:
  "extract_pages ps bin off = Inl e \<Longrightarrow> e = ReshapeError \<or> e = Corrupt"
proof (induction ps arbitrary: off e)
  case Nil
  then show ?case by simp
next
  case (Cons page rest)
  show ?case
  proof (cases "extract_pages rest bin (off + img_size page + shuffle_size page)")
    case (Inl e')
    then have "e' = ReshapeError \<or> e' = Corrupt" by (rule Cons.IH)
    then show ?thesis using Cons.prems Inl
      by (auto simp: image_frombuffer_def reshape_def int32_frombuffer_def
          split: sum.splits if_splits)
  next
    case (Inr ps')
    then show ?thesis using Cons.prems
      by (auto simp: image_frombuffer_def reshape_def int32_frombuffer_def
          split: sum.splits if_splits)
  qed
qed

lemma extract_pages_errors:
  "extract_pages ps bin off \<noteq> Inl InvalidFormat \<and> extract_pages ps bin off \<noteq> Inl (UnsupportedVersion v)"
  using extract_pages_Inl [of ps bin off] by auto

lemma pyslice_single:
  assumes "i < length xs"
  shows "pyslice xs i (i + 1) = [xs ! i]"
proof -
  have "take 1 (drop i xs) = [xs ! i]"
    using assms by (metis Cons_nth_drop_Suc One_nat_def take0 take_Suc_Cons)
  then show ?thesis by (simp add: pyslice_def)
qed

text \<open>
  Claim C8. \<open>extract_encryption_package\<close> raises the error for an invalid format exactly
  when the buffer has no occurrence of the six bytes \<^verbatim>\<open>AARTHA\<close>; when the byte after
  the located (first) occurrence is a version other than 1 it raises the error for an
  unsupported version, naming that version; and when that byte is 1 it raises neither.
\<close>

theorem extract_errors:
  "(extract_encryption_package loads b = Inl InvalidFormat \<longleftrightarrow> (\<forall>i. \<not> occurs_at MAGIC b i))
   \<and> (\<forall>p. find_bytes MAGIC b = Some p \<and> p + 6 < length b \<and> unat (b ! (p + 6)) \<noteq> 1 \<longrightarrow>
          extract_encryption_package loads b = Inl (UnsupportedVersion (unat (b ! (p + 6)))))
   \<and> (\<forall>p. find_bytes MAGIC b = Some p \<and> p + 6 < length b \<and> unat (b ! (p + 6)) = 1 \<longrightarrow>
          extract_encryption_package loads b \<noteq> Inl InvalidFormat
          \<and> (\<forall>v. extract_encryption_package loads b \<noteq> Inl (UnsupportedVersion v)))"
proof (intro conjI allI impI)
  show "extract_encryption_package loads b = Inl InvalidFormat \<longleftrightarrow> (\<forall>i. \<not> occurs_at MAGIC b i)"
  proof (cases "find_bytes MAGIC b")
    case None
    then show ?thesis using find_bytes_None [of MAGIC b] by (simp add: extract_encryption_package_def)
  next
    case (Some p)
    then have "\<not> (\<forall>i. \<not> occurs_at MAGIC b i)" using find_bytes_None [of MAGIC b] by simp
    moreover have "extract_encryption_package loads b \<noteq> Inl InvalidFormat"
      using Some extract_pages_errors
      by (auto simp: extract_encryption_package_def unpack_u8_def unpack_be32_def
          split: sum.splits list.splits option.splits if_splits)
    ultimately show ?thesis by simp
  qed
next
  fix p
  assume a: "find_bytes MAGIC b = Some p \<and> p + 6 < length b \<and> unat (b ! (p + 6)) \<noteq> 1"
  then have "pyslice b (p + 6) (p + 6 + 1) = [b ! (p + 6)]" by (intro pyslice_single) simp
  then show "extract_encryption_package loads b = Inl (UnsupportedVersion (unat (b ! (p + 6))))"
    using a by (simp add: extract_encryption_package_def unpack_u8_def)
next
  fix p
  assume a: "find_bytes MAGIC b = Some p \<and> p + 6 < length b \<and> unat (b ! (p + 6)) = 1"
  then have s: "pyslice b (p + 6) (p + 6 + 1) = [b ! (p + 6)]" by (intro pyslice_single) simp
  show "extract_encryption_package loads b \<noteq> Inl InvalidFormat"
    using a s extract_pages_errors
    by (auto simp: extract_encryption_package_def unpack_u8_def unpack_be32_def
        split: sum.splits option.splits if_splits)
  fix v
  show "extract_encryption_package loads b \<noteq> Inl (UnsupportedVersion v)"
    using a s extract_pages_errors
    by (auto simp: extract_encryption_package_def unpack_u8_def unpack_be32_def
        split: sum.splits option.splits if_splits)
qed

theorem extract_errors_witness:
  "find_bytes MAGIC (MAGIC @ [2]) = Some 0
   \<and> extract_encryption_package example_loads (MAGIC @ [2]) = Inl (UnsupportedVersion 2)"
proof -
  have f: "find_bytes MAGIC (MAGIC @ [2]) = Some 0" by (simp add: MAGIC_def)
  have l: "0 + 6 < length (MAGIC @ [2])" by (simp add: MAGIC_def)
  have v: "unat ((MAGIC @ [2]) ! (0 + 6)) = 2" by (simp add: MAGIC_def)
  have c: "find_bytes MAGIC (MAGIC @ [2]) = Some 0 \<and> 0 + 6 < length (MAGIC @ [2])
      \<and> unat ((MAGIC @ [2]) ! (0 + 6)) \<noteq> 1"
    using f l v by simp
  note e = extract_errors [of example_loads "MAGIC @ [2]", THEN conjunct2, THEN conjunct1,
      rule_format, of 0]
  show ?thesis using e [OF c] f v by simp
qed

lemma bytes_decompose:
  fixes u :: nat
  assumes "u < 4294967296"
  shows "((u div 16777216 mod 256 * 256 + u div 65536 mod 256) * 256 + u div 256 mod 256) * 256
           + u mod 256 = u"
proof -
  define x1 where "x1 = u div 256"
  define x2 where "x2 = x1 div 256"
  define x3 where "x3 = x2 div 256"
  have a: "u div 65536 = x2" unfolding x2_def x1_def by (simp add: div_mult2_eq)
  have b: "u div 16777216 = x3" unfolding x3_def x2_def x1_def by (simp add: div_mult2_eq)
  have "x3 < 256" using assms b [symmetric] by simp
  then have c: "x3 mod 256 = x3" by simp
  have d3: "x3 * 256 + x2 mod 256 = x2" unfolding x3_def by (rule div_mult_mod_eq)
  have d2: "x2 * 256 + x1 mod 256 = x1" unfolding x2_def by (rule div_mult_mod_eq)
  have d1: "x1 * 256 + u mod 256 = u" unfolding x1_def by (rule div_mult_mod_eq)
  show ?thesis unfolding a b c x1_def [symmetric] d3 d2 d1 ..
qed

lemma from_bytes_big_4:
  "from_bytes_big [a, b, c, d] = ((unat a * 256 + unat b) * 256 + unat c) * 256 + unat d"
  by (simp add: from_bytes_big_def)

lemma unat_byte: "unat (of_nat (k mod 256) :: u8) = k mod 256"
  by (simp add: unat_of_nat)

lemma pack_be32_roundtrip:
  assumes "n < 4294967296"
  shows "\<exists>bs. pack_be32 n = Inr bs \<and> length bs = 4 \<and> unpack_be32 bs = Inr n"
proof -
  have "from_bytes_big [of_nat (n div 16777216 mod 256), of_nat (n div 65536 mod 256),
      of_nat (n div 256 mod 256), of_nat (n mod 256) :: u8] = n"
    unfolding from_bytes_big_4 unat_byte using assms by (rule bytes_decompose)
  then show ?thesis using assms by (simp add: pack_be32_def unpack_be32_def)
qed


lemma int32_bytes_unfold:
  "int32_bytes i = [of_nat (nat (i mod 4294967296) mod 256),
     of_nat (nat (i mod 4294967296) div 256 mod 256),
     of_nat (nat (i mod 4294967296) div 65536 mod 256),
     of_nat (nat (i mod 4294967296) div 16777216 mod 256)]"
  unfolding int32_bytes_def Let_def ..

lemma int32_roundtrip:
  assumes "- 2147483648 \<le> i" and "i < 2147483648"
  shows "int32_of_bytes (int32_bytes i) = i"
proof -
  define u where "u = nat (i mod 4294967296)"
  have "0 \<le> i mod 4294967296" "i mod 4294967296 < 4294967296"
    by (rule pos_mod_sign, simp) (rule pos_mod_bound, simp)
  then have ul: "u < 4294967296" unfolding u_def by linarith
  have b: "int32_bytes i = [of_nat (u mod 256), of_nat (u div 256 mod 256),
      of_nat (u div 65536 mod 256), of_nat (u div 16777216 mod 256)]"
    unfolding u_def by (rule int32_bytes_unfold)
  have "from_bytes_big (rev (int32_bytes i)) = u"
    unfolding b rev.simps append.simps from_bytes_big_4 unat_byte using ul by (rule bytes_decompose)
  then have e: "int32_of_bytes (int32_bytes i)
      = (if 2147483648 \<le> u then int u - 4294967296 else int u)"
    unfolding int32_of_bytes_def Let_def by (simp only:)
  show ?thesis
  proof (cases "0 \<le> i")
    case True
    then have "i mod 4294967296 = i" using assms(2) by (intro mod_pos_pos_trivial) simp_all
    then have iu: "int u = i" unfolding u_def using True by simp
    then have "\<not> 2147483648 \<le> u" using assms(2) by linarith
    then show ?thesis unfolding e using iu by simp
  next
    case False
    have "(i + 4294967296) mod 4294967296 = i mod 4294967296" by (rule mod_add_self2)
    moreover have "(i + 4294967296) mod 4294967296 = i + 4294967296"
      using False assms(1) by (intro mod_pos_pos_trivial) simp_all
    ultimately have "i mod 4294967296 = i + 4294967296" by (simp only:)
    then have iu: "int u = i + 4294967296" unfolding u_def using assms(1) by simp
    then have "2147483648 \<le> u" using assms(1) by linarith
    then show ?thesis unfolding e using iu by simp
  qed
qed

lemma length_int32_bytes: "length (int32_bytes i) = 4"
  by (simp add: int32_bytes_unfold)

lemma length_int32_tobytes: "length (int32_tobytes idx) = 4 * length idx"
  by (induction idx) (simp_all add: int32_tobytes_def length_int32_bytes)

lemma groups4_int32_bytes: "groups4 (int32_bytes i @ xs) = int32_bytes i # groups4 xs"
  by (simp add: int32_bytes_unfold)

lemma int32_frombuffer_roundtrip:
  assumes "\<forall>i \<in> set idx. - 2147483648 \<le> i \<and> i < 2147483648"
  shows "int32_frombuffer (int32_tobytes idx) = Inr idx"
proof -
  have "map int32_of_bytes (groups4 (int32_tobytes idx)) = idx"
    using assms
  proof (induction idx)
    case Nil
    then show ?case by (simp add: int32_tobytes_def)
  next
    case (Cons i idx)
    have r: "int32_of_bytes (int32_bytes i) = i" using Cons.prems by (intro int32_roundtrip) simp_all
    have "int32_tobytes (i # idx) = int32_bytes i @ int32_tobytes idx"
      by (simp add: int32_tobytes_def)
    then show ?case using Cons r by (simp add: groups4_int32_bytes)
  qed
  then show ?thesis by (simp add: int32_frombuffer_def length_int32_tobytes)
qed

lemma package_pages_Cons:
  "package_pages ((img, md, perm) # rest) =
     (\<lparr>img_shape = shape img, img_dtype = ''uint8'', img_size = length (elems img),
       shuffle_size = 4 * length perm, metadata = md\<rparr> # fst (package_pages rest),
      elems img @ int32_tobytes perm @ snd (package_pages rest))"
  by (simp add: Let_def flatten_def length_int32_tobytes split: prod.splits)

lemma extract_pages_roundtrip:
  assumes "\<forall>z \<in> set zs. valid_array (fst z)
             \<and> (\<forall>i \<in> set (snd (snd z)). - 2147483648 \<le> i \<and> i < 2147483648)"
    and "drop off B = snd (package_pages zs)"
  shows "extract_pages (fst (package_pages zs)) B off = Inr (map decoded_page zs)"
  using assms
proof (induction zs arbitrary: off)
  case Nil
  then show ?case by simp
next
  case (Cons z zs)
  obtain img md perm where z: "z = (img, md, perm)" by (cases z) auto
  have v: "valid_array img" and r: "\<forall>i \<in> set perm. - 2147483648 \<le> i \<and> i < 2147483648"
    using Cons.prems(1) z by auto
  let ?n = "length (elems img)" and ?m = "4 * length perm"
  have d: "drop off B = elems img @ int32_tobytes perm @ snd (package_pages zs)"
    using Cons.prems(2) unfolding z package_pages_Cons by simp
  have s1: "pyslice B off (off + ?n) = elems img"
    using d by (simp add: pyslice_def)
  have "drop (off + ?n) B = drop ?n (drop off B)" by (simp add: add.commute)
  then have d2: "drop (off + ?n) B = int32_tobytes perm @ snd (package_pages zs)"
    using d by simp
  then have s2: "pyslice B (off + ?n) (off + ?n + ?m) = int32_tobytes perm"
    by (simp add: pyslice_def length_int32_tobytes)
  have "drop (off + ?n + ?m) B = drop ?m (drop (off + ?n) B)" by (simp add: add.commute)
  then have d3: "drop (off + ?n + ?m) B = snd (package_pages zs)"
    using d2 by (simp add: length_int32_tobytes)
  have rest: "extract_pages (fst (package_pages zs)) B (off + ?n + ?m) = Inr (map decoded_page zs)"
    using Cons.prems(1) d3 by (intro Cons.IH) simp_all
  have img: "image_frombuffer (elems img) ''uint8'' (shape img) = Inr img"
    using v by (simp add: image_frombuffer_def reshape_def valid_array_def)
  have perm: "int32_frombuffer (int32_tobytes perm) = Inr perm"
    using r by (rule int32_frombuffer_roundtrip)
  show ?case unfolding z package_pages_Cons
    by (simp add: s1 s2 img perm rest decoded_page_def page_meta.extend_def flatten_def)
qed

lemma find_bytes_prefix:
  assumes "find_bytes MAGIC (P @ MAGIC) = Some (length P)"
  shows "find_bytes MAGIC (P @ MAGIC @ rest) = Some (length P)"
proof (rule find_bytes_first)
  show "occurs_at MAGIC (P @ MAGIC @ rest) (length P)" by (simp add: occurs_at_def)
next
  from find_bytes_Some [OF assms] have first: "\<forall>i<length P. \<not> occurs_at MAGIC (P @ MAGIC) i"
    by simp
  show "\<forall>i<length P. \<not> occurs_at MAGIC (P @ MAGIC @ rest) i"
  proof (intro allI impI notI)
    fix i assume i: "i < length P" and o: "occurs_at MAGIC (P @ MAGIC @ rest) i"
    have l: "i + length MAGIC \<le> length (P @ MAGIC)" using i by simp
    have "take (length MAGIC) (drop i ((P @ MAGIC) @ rest)) = take (length MAGIC) (drop i (P @ MAGIC))"
      using l by simp
    then have "occurs_at MAGIC (P @ MAGIC) i" using o l by (simp add: occurs_at_def)
    then show False using first i by blast
  qed
qed

text \<open>
  Claim C4, as amended. For page lists of one length, with well-formed ciphertext arrays
  and permutation entries that fit 32 signed bits, for a JSON library that gives back the
  metadata it serialised, in fewer than \<open>2 ^ 32\<close> bytes, and for every prefix \<open>P\<close> such
  that the first occurrence of \<^verbatim>\<open>AARTHA\<close> in \<open>P\<close> followed by \<^verbatim>\<open>AARTHA\<close> is the one
  at the end (no occurrence starts inside \<open>P\<close>), \<open>create_encryption_package\<close> succeeds and
  \<open>extract_encryption_package\<close> returns, for every page, the metadata, the ciphertext array
  and the permutation array that were encoded; the prefix is not part of what is decoded.
\<close>

theorem package_roundtrip:
  assumes len: "length metadata_list = length encrypted_images"
      "length shuffle_indices_list = length encrypted_images"
    and valid: "\<forall>img \<in> set encrypted_images. valid_array img"
    and range: "\<forall>perm \<in> set shuffle_indices_list. \<forall>i \<in> set perm. - 2147483648 \<le> i \<and> i < 2147483648"
    and json: "loads (dumps (built_meta encrypted_images metadata_list shuffle_indices_list))
        = Some (built_meta encrypted_images metadata_list shuffle_indices_list)"
    and small: "length (dumps (built_meta encrypted_images metadata_list shuffle_indices_list)) < 4294967296"
    and pre: "find_bytes MAGIC (prefix_bytes @ MAGIC) = Some (length prefix_bytes)"
  shows "\<exists>package_bytes.
           create_encryption_package dumps encrypted_images metadata_list shuffle_indices_list
             prefix_bytes = Inr package_bytes
         \<and> extract_encryption_package loads package_bytes =
             Inr \<lparr>pkg_version = ''1.0'', pkg_num_pages = length encrypted_images,
                  pkg_pages = map decoded_page
                    (zip encrypted_images (zip metadata_list shuffle_indices_list))\<rparr>"
proof -
  let ?zs = "zip encrypted_images (zip metadata_list shuffle_indices_list)"
  let ?m = "built_meta encrypted_images metadata_list shuffle_indices_list"
  let ?j = "dumps ?m"
  let ?bin = "snd (package_pages ?zs)"
  from pack_be32_roundtrip [OF small] obtain lb where
    lb: "pack_be32 (length ?j) = Inr lb" "length lb = 4" "unpack_be32 lb = Inr (length ?j)"
    by blast
  define b where "b = prefix_bytes @ (MAGIC @ [1] @ lb) @ ?j @ ?bin"
  let ?p = "length prefix_bytes"
  have cr: "create_encryption_package dumps encrypted_images metadata_list shuffle_indices_list
      prefix_bytes = Inr b"
    unfolding b_def using lb(1)
    by (simp add: create_encryption_package_def built_meta_def Let_def case_prod_beta)
  have f: "find_bytes MAGIC b = Some ?p"
    unfolding b_def using find_bytes_prefix [OF pre, of "[1] @ lb @ ?j @ ?bin"] by simp
  have lm: "length MAGIC = 6" by (simp add: MAGIC_def)
  have d6: "drop (?p + 6) b = [1] @ lb @ ?j @ ?bin" unfolding b_def using lm by simp
  have d7: "drop (?p + 7) b = lb @ ?j @ ?bin" unfolding b_def using lm by simp
  have d11: "drop (?p + 11) b = ?j @ ?bin" unfolding b_def using lm lb(2) by simp
  have "drop (?p + 11 + length ?j) b = drop (length ?j) (drop (?p + 11) b)"
    by (simp only: drop_drop add.commute)
  then have dall: "drop (?p + 11 + length ?j) b = ?bin" unfolding d11 by simp
  have s6: "pyslice b (?p + 6) (?p + 6 + 1) = [1]" unfolding pyslice_def d6 by simp
  have s7: "pyslice b (?p + 7) (?p + 7 + 4) = lb" unfolding pyslice_def d7 using lb(2) by simp
  have s11: "pyslice b (?p + 11) (?p + 11 + length ?j) = ?j" unfolding pyslice_def d11 by simp
  have zv: "\<forall>z \<in> set ?zs. valid_array (fst z)
             \<and> (\<forall>i \<in> set (snd (snd z)). - 2147483648 \<le> i \<and> i < 2147483648)"
  proof
    fix z assume zin: "z \<in> set ?zs"
    obtain a b c where z: "z = (a, b, c)" by (metis prod_cases3)
    have "(a, b, c) \<in> set ?zs" using zin z by simp
    then have "a \<in> set encrypted_images" "(b, c) \<in> set (zip metadata_list shuffle_indices_list)"
      by (auto dest: set_zip_leftD set_zip_rightD)
    then have "fst z \<in> set encrypted_images" "snd (snd z) \<in> set shuffle_indices_list"
      using z by (auto dest: set_zip_rightD)
    then show "valid_array (fst z)
        \<and> (\<forall>i \<in> set (snd (snd z)). - 2147483648 \<le> i \<and> i < 2147483648)"
      using valid range by blast
  qed
  have "drop 0 ?bin = snd (package_pages ?zs)" by simp
  with zv have ep: "extract_pages (fst (package_pages ?zs)) ?bin 0 = Inr (map decoded_page ?zs)"
    by (rule extract_pages_roundtrip)
  have pm: "pages ?m = fst (package_pages ?zs)" "version ?m = ''1.0''"
    "num_pages ?m = length encrypted_images"
    by (simp_all add: built_meta_def)
  have "extract_encryption_package loads b =
      Inr \<lparr>pkg_version = ''1.0'', pkg_num_pages = length encrypted_images,
           pkg_pages = map decoded_page ?zs\<rparr>"
  proof -
    have e1: "unpack_u8 (pyslice b (?p + 6) (?p + 6 + 1)) = Inr 1"
      unfolding s6 by (simp add: unpack_u8_def)
    have e2: "unpack_be32 (pyslice b (?p + 7) (?p + 7 + 4)) = Inr (length ?j)"
      unfolding s7 by (rule lb(3))
    have e3: "loads (pyslice b (?p + 11) (?p + 11 + length ?j)) = Some ?m"
      unfolding s11 by (rule json)
    have e4: "extract_pages (fst (package_pages ?zs)) (drop (?p + 11 + length ?j) b) 0
        = Inr (map decoded_page ?zs)"
      unfolding dall by (rule ep)
    show ?thesis
      unfolding extract_encryption_package_def
      by (simp only: f option.case e1 sum.case simp_thms if_False e2 e3 e4 pm)
  qed
  then show ?thesis using cr by blast
qed

lemma length_example_json: "length (encode example_json) = 232"
  by (simp add: encode_def example_json_def)

lemma int32_tobytes_example: "int32_tobytes [1, 0] = [1, 0, 0, 0, 0, 0, 0, 0]"
  by (simp add: int32_tobytes_def int32_bytes_unfold)

lemma create_example_bad:
  "create_encryption_package example_dumps [example_image] [example_md] [[1, 0]] (encode ''AARTH'')
     = Inr example_bad_package"
  by (simp add: create_encryption_package_def Let_def example_dumps_def length_example_json
      pack_be32_def int32_tobytes_example flatten_def example_image_def example_bad_package_def)

lemma find_example_bad: "find_bytes MAGIC example_bad_package = Some 0"
  by (simp add: example_bad_package_def encode_def MAGIC_def)

lemma version_example_bad: "pyslice example_bad_package (0 + 6) (0 + 6 + 1) = [65]"
  by (simp add: example_bad_package_def encode_def MAGIC_def pyslice_def)

text \<open>
  Claim C4 as stated fails: the prefix \<^verbatim>\<open>AARTH\<close> does not contain the token, yet with
  the first byte of the header it forms an occurrence at offset 0, so the decoder reads
  the \<^verbatim>\<open>A\<close> of the real header as the version and raises for version 65.
\<close>

theorem package_prefix_counterexample:
  "find_bytes MAGIC (encode ''AARTH'') = None
   \<and> create_encryption_package example_dumps [example_image] [example_md] [[1, 0]]
        (encode ''AARTH'') = Inr example_bad_package
   \<and> extract_encryption_package example_loads example_bad_package = Inl (UnsupportedVersion 65)"
proof -
  have 1: "find_bytes MAGIC (encode ''AARTH'') = None" by (simp add: encode_def MAGIC_def)
  have "extract_encryption_package example_loads example_bad_package = Inl (UnsupportedVersion 65)"
    unfolding extract_encryption_package_def find_example_bad option.case version_example_bad
    by (simp add: unpack_u8_def)
  then show ?thesis using 1 create_example_bad by simp
qed

theorem package_roundtrip_witness:
  "find_bytes MAGIC (encode ''PNG'' @ MAGIC) = Some 3
   \<and> (\<exists>package_bytes.
        create_encryption_package example_dumps [example_image] [example_md] [[1, 0]]
          (encode ''PNG'') = Inr package_bytes
      \<and> extract_encryption_package example_loads package_bytes =
          Inr \<lparr>pkg_version = ''1.0'', pkg_num_pages = 1,
               pkg_pages = [decoded_page (example_image, example_md, [1, 0])]\<rparr>)"
proof -
  have pre: "find_bytes MAGIC (encode ''PNG'' @ MAGIC) = Some (length (encode ''PNG''))"
    by (simp add: encode_def MAGIC_def)
  have v: "\<forall>img \<in> set [example_image]. valid_array img"
    by (simp add: valid_array_def example_image_def)
  have r: "\<forall>perm \<in> set [[1, 0 :: int]]. \<forall>i \<in> set perm. - 2147483648 \<le> i \<and> i < 2147483648"
    by simp
  have j: "example_loads (example_dumps (built_meta [example_image] [example_md] [[1, 0]]))
      = Some (built_meta [example_image] [example_md] [[1, 0]])"
    by (simp add: example_loads_def example_dumps_def)
  have s: "length (example_dumps (built_meta [example_image] [example_md] [[1, 0]])) < 4294967296"
    by (simp add: example_dumps_def length_example_json)
  from package_roundtrip [of "[example_md]" "[example_image]" "[[1, 0]]" example_loads example_dumps
      "encode ''PNG''", OF _ _ v r j s pre]
  show ?thesis using pre by (simp add: encode_def)
qed

end
